theory Spec2Isabelle
  imports Main "HOL-Library.AList"
begin

unbundle bit_operations_syntax

section \<open>Python primitives used by \<open>intelhex_editor.py\<close>\<close>

text \<open>
  Python integers are unbounded: they are modelled as \<open>int\<close>, and the operators
  \<open>>>\<close>, \<open><<\<close>, \<open>&\<close> and \<open>|\<close> as \<open>drop_bit\<close>, \<open>push_bit\<close>, \<open>AND\<close> and \<open>OR\<close> on \<open>int\<close>
  (two's complement on both sides, so \<open>-1 & 0xFF = 255\<close> and \<open>-1 >> 8 = -1\<close>).
  A Python \<open>str\<close> is modelled as a \<open>string\<close>, a list of characters with code points
  0..255; text with code points above 255 is outside the model.
  Every \<open>raise\<close> of the source, and every exception raised by a builtin the source
  calls, is a constructor of \<open>error\<close>.
\<close>

datatype error =
    ValueError_invalid_line           \<comment> \<open>\<open>ValueError("Invalid Intel HEX line")\<close>\<close>
  | ValueError_int                    \<comment> \<open>\<open>int(s, 16)\<close>: invalid literal\<close>
  | ValueError_fromhex                \<comment> \<open>\<open>bytes.fromhex(s)\<close>: odd length or a non-hex character\<close>
  | ValueError_checksum int int       \<comment> \<open>\<open>"Checksum mismatch: expected .., got .."\<close>\<close>
  | TypeError_data                    \<comment> \<open>\<open>TypeError("Data must be str or int")\<close>\<close>
  | IndexError                        \<comment> \<open>\<open>addresses[0]\<close> on an empty list\<close>

subsection \<open>Characters\<close>

text \<open>CPython's table \<open>_PyLong_DigitValue\<close>: 37 for every character that is no digit or letter.\<close>

definition digit_value :: "char \<Rightarrow> nat" where
  "digit_value c =
     (let n = (of_char c :: nat) in
      if 48 \<le> n \<and> n \<le> 57 then n - 48
      else if 97 \<le> n \<and> n \<le> 122 then n - 87
      else if 65 \<le> n \<and> n \<le> 90 then n - 55
      else 37)"

text \<open>\<open>Py_ISSPACE\<close>: the ASCII whitespace that \<open>int\<close> and \<open>bytes.fromhex\<close> skip.\<close>

definition Py_ISSPACE :: "char \<Rightarrow> bool" where
  "Py_ISSPACE c = (let n = (of_char c :: nat) in (9 \<le> n \<and> n \<le> 13) \<or> n = 32)"

text \<open>\<open>str.isspace\<close> on one character (what \<open>str.strip()\<close> removes), for code points below 256.\<close>

definition py_isspace :: "char \<Rightarrow> bool" where
  "py_isspace c =
     (let n = (of_char c :: nat) in
      (9 \<le> n \<and> n \<le> 13) \<or> (28 \<le> n \<and> n \<le> 32) \<or> n = 133 \<or> n = 160)"

text \<open>\<open>str.upper\<close> on one character. The three characters of the range whose upper-case
  form leaves it (U+00B5, U+00DF, U+00FF) are kept as they are: neither they nor their
  upper-case forms are base-16 digits, signs, underscores or whitespace.\<close>

definition py_upper_char :: "char \<Rightarrow> char" where
  "py_upper_char c =
     (let n = (of_char c :: nat) in
      if (97 \<le> n \<and> n \<le> 122) \<or> (224 \<le> n \<and> n \<le> 254 \<and> n \<noteq> 247)
      then char_of (n - 32) else c)"

definition py_upper :: "string \<Rightarrow> string" where
  "py_upper s = map py_upper_char s"

definition py_strip :: "string \<Rightarrow> string" where
  "py_strip s = rev (dropWhile py_isspace (rev (dropWhile py_isspace s)))"

text \<open>\<open>s.lstrip(chars)\<close>: drops every leading character that occurs in \<open>chars\<close>.\<close>

definition py_lstrip :: "string \<Rightarrow> string \<Rightarrow> string" where
  "py_lstrip chars s = dropWhile (\<lambda>c. c \<in> set chars) s"

subsection \<open>Slices and ranges\<close>

text \<open>\<open>s[i:j]\<close>: a negative index counts from the end, and both are clamped to the string.\<close>

definition py_slice :: "'a list \<Rightarrow> int \<Rightarrow> int \<Rightarrow> 'a list" where
  "py_slice s i j =
     (let n = int (length s);
          a = (if i < 0 then max (i + n) 0 else min i n);
          b = (if j < 0 then max (j + n) 0 else min j n)
      in take (nat (b - a)) (drop (nat a) s))"

text \<open>\<open>range(start, stop, step)\<close> for a positive step.\<close>

definition py_range :: "int \<Rightarrow> int \<Rightarrow> int \<Rightarrow> int list" where
  "py_range start stop step =
     map (\<lambda>k. start + step * int k) [0..<nat ((stop - start + step - 1) div step)]"

subsection \<open>\<open>int(s, 16)\<close>\<close>

text \<open>
  \<open>PyLong_FromUnicodeObject\<close>: characters from 127 on are replaced first (whitespace by a
  blank; anything else ends the text with a question mark, since no decimal digit lies
  between 127 and 255). Then \<open>PyLong_FromString\<close>: leading \<open>Py_ISSPACE\<close>, a sign, the prefix
  \<open>0x\<close> or \<open>0X\<close> and one underscore after it, digits with single underscores between them,
  trailing \<open>Py_ISSPACE\<close>, and nothing else.
\<close>

fun transform_ascii :: "string \<Rightarrow> string" where
  "transform_ascii [] = []"
| "transform_ascii (c # cs) =
     (if (of_char c :: nat) < 127 then c # transform_ascii cs
      else if py_isspace c then CHR '' '' # transform_ascii cs
      else [CHR ''?''])"

definition strip_sign :: "string \<Rightarrow> bool \<times> string" where
  "strip_sign s =
     (case s of
        [] \<Rightarrow> (False, [])
      | c # r \<Rightarrow> if c = CHR ''+'' then (False, r)
                 else if c = CHR ''-'' then (True, r)
                 else (False, s))"

definition strip_prefix16 :: "string \<Rightarrow> string" where
  "strip_prefix16 s =
     (case s of
        c0 # c1 # r \<Rightarrow>
          if c0 = CHR ''0'' \<and> (c1 = CHR ''x'' \<or> c1 = CHR ''X'')
          then (case r of u # r' \<Rightarrow> if u = CHR ''_'' then r' else r | [] \<Rightarrow> r)
          else s
      | _ \<Rightarrow> s)"

definition is_digit16 :: "char \<Rightarrow> bool" where
  "is_digit16 c = (digit_value c < 16)"

text \<open>The digit scan refuses two underscores in a row and an underscore at the end.\<close>

fun bad_underscores :: "string \<Rightarrow> bool" where
  "bad_underscores [] = False"
| "bad_underscores [c] = (c = CHR ''_'')"
| "bad_underscores (c # d # r) =
     ((c = CHR ''_'' \<and> d = CHR ''_'') \<or> bad_underscores (d # r))"

definition digits_value :: "string \<Rightarrow> int" where
  "digits_value s = foldl (\<lambda>acc c. acc * 16 + int (digit_value c)) 0 s"

definition py_int16 :: "string \<Rightarrow> error + int" where
  "py_int16 s =
     (let s1 = dropWhile Py_ISSPACE (transform_ascii s);
          (neg, s2) = strip_sign s1;
          s3 = strip_prefix16 s2;
          body = takeWhile (\<lambda>c. is_digit16 c \<or> c = CHR ''_'') s3;
          rest = dropWhile (\<lambda>c. is_digit16 c \<or> c = CHR ''_'') s3
      in if body = [] \<or> hd body = CHR ''_'' \<or> bad_underscores body
            \<or> dropWhile Py_ISSPACE rest \<noteq> []
         then Inl ValueError_int
         else let v = digits_value (filter (\<lambda>c. c \<noteq> CHR ''_'') body)
              in Inr (if neg then - v else v))"

subsection \<open>\<open>bytes.fromhex(s)\<close>, \<open>int.from_bytes(b, 'big')\<close> and \<open>format(x, '0wX')\<close>\<close>

text \<open>\<open>bytes.fromhex\<close> skips \<open>Py_ISSPACE\<close> before each byte and wants two adjacent hex
  digits for it; a character from 128 on is refused like any other non-digit.\<close>

fun fromhex :: "string \<Rightarrow> error + int list" where
  "fromhex [] = Inr []"
| "fromhex [c] = (if Py_ISSPACE c then Inr [] else Inl ValueError_fromhex)"
| "fromhex (c # d # r) =
     (if Py_ISSPACE c then fromhex (d # r)
      else if is_digit16 c \<and> is_digit16 d
      then (case fromhex r of
              Inl e \<Rightarrow> Inl e
            | Inr bs \<Rightarrow> Inr (int (digit_value c * 16 + digit_value d) # bs))
      else Inl ValueError_fromhex)"

definition from_bytes_big :: "int list \<Rightarrow> int" where
  "from_bytes_big bs = foldl (\<lambda>acc b. acc * 256 + b) 0 bs"

definition hexchar :: "nat \<Rightarrow> char" where
  "hexchar d = ''0123456789ABCDEF'' ! d"

function hex_upper :: "nat \<Rightarrow> string" where
  "hex_upper n = (if n < 16 then [hexchar n] else hex_upper (n div 16) @ [hexchar (n mod 16)])"
  by pat_completeness auto
termination
  by (relation "measure id") auto

declare hex_upper.simps [simp del]

text \<open>\<open>format(x, '0wX')\<close>: upper-case hex, the sign first, zeros up to width \<open>w\<close>;
  \<open>format(x, 'X')\<close> is width 0.\<close>

definition format_X :: "nat \<Rightarrow> int \<Rightarrow> string" where
  "format_X w x =
     (let ds = hex_upper (nat \<bar>x\<bar>);
          sign = (if x < 0 then ''-'' else [])
      in sign @ replicate (w - length sign - length ds) CHR ''0'' @ ds)"

section \<open>The memory image: class \<open>IntelHexFile\<close>\<close>

text \<open>The dictionary \<open>self.data\<close> is an association list in insertion order with unique
  keys: \<open>d[k] = v\<close> is \<open>AList.update k v d\<close> and \<open>d.get(k, x)\<close> is \<open>dict_get d k x\<close>.\<close>

record IntelHexFile =
  data :: "(int \<times> int) list"
  start_address :: "int option"

definition new_file :: IntelHexFile where
  "new_file = \<lparr>data = [], start_address = None\<rparr>"

definition dict_get :: "(int \<times> int) list \<Rightarrow> int \<Rightarrow> int \<Rightarrow> int" where
  "dict_get d k dflt = (case map_of d k of Some v \<Rightarrow> v | None \<Rightarrow> dflt)"

text \<open>\<open>for i, byte in enumerate(bs): self.data[addr + i] = byte\<close>\<close>

fun store_bytes :: "(int \<times> int) list \<Rightarrow> int \<Rightarrow> int list \<Rightarrow> (int \<times> int) list" where
  "store_bytes d addr [] = d"
| "store_bytes d addr (b # bs) = store_bytes (AList.update addr b d) (addr + 1) bs"

subsection \<open>\<open>parse_line\<close>\<close>

text \<open>The fields of a line, lines 23 to 31 of the source: byte count, address, record
  type, payload and checksum, each conversion raising where Python's does.\<close>

definition parse_fields :: "string \<Rightarrow> error + (int \<times> int \<times> int \<times> int list \<times> int)" where
  "parse_fields line0 =
     (if \<not> (line0 \<noteq> [] \<and> hd line0 = CHR '':'') then Inl ValueError_invalid_line
      else let line = tl line0 in
        case py_int16 (py_slice line 0 2) of Inl e \<Rightarrow> Inl e | Inr byte_count \<Rightarrow>
        case py_int16 (py_slice line 2 6) of Inl e \<Rightarrow> Inl e | Inr address \<Rightarrow>
        case py_int16 (py_slice line 6 8) of Inl e \<Rightarrow> Inl e | Inr record_type \<Rightarrow>
        case fromhex (py_slice line 8 (8 + byte_count * 2)) of Inl e \<Rightarrow> Inl e | Inr payload \<Rightarrow>
        case py_int16 (py_slice line (8 + byte_count * 2) (10 + byte_count * 2)) of
          Inl e \<Rightarrow> Inl e
        | Inr checksum \<Rightarrow> Inr (byte_count, address, record_type, payload, checksum))"

text \<open>The checksum validation, lines 33 to 39, and the returned triple.\<close>

definition parse_line :: "string \<Rightarrow> error + (int \<times> int \<times> int list)" where
  "parse_line line =
     (case parse_fields line of
        Inl e \<Rightarrow> Inl e
      | Inr (byte_count, address, record_type, payload, checksum) \<Rightarrow>
          let total = byte_count + drop_bit 8 address + (address AND 0xFF) + record_type
                        + sum_list payload;
              computed_checksum = (- total) AND 0xFF
          in if computed_checksum \<noteq> checksum
             then Inl (ValueError_checksum checksum computed_checksum)
             else Inr (record_type, address, payload))"

subsection \<open>\<open>load_file\<close>\<close>

text \<open>The file is the list of its lines, each with its line terminator; opening and
  reading it are taken to succeed. The loop's variables are the object and the two
  locals. When a line fails to decode, the exception leaves the method and the error is
  the result.\<close>

record load_state =
  self_file :: IntelHexFile
  extended_address :: int
  first_data_address :: "int option"

fun load_lines :: "load_state \<Rightarrow> string list \<Rightarrow> error + load_state" where
  "load_lines st [] = Inr st"
| "load_lines st (raw # rest) =
     (let line = py_strip raw in
      if line = [] then load_lines st rest
      else case parse_line line of
        Inl e \<Rightarrow> Inl e
      | Inr (record_type, address, payload) \<Rightarrow>
          if record_type = 0 then
            (let full_address = extended_address st OR address in
             load_lines
               (st\<lparr>self_file := (self_file st)\<lparr>data :=
                      store_bytes (data (self_file st)) full_address payload\<rparr>,
                    first_data_address :=
                      (if first_data_address st = None then Some full_address
                       else first_data_address st)\<rparr>)
               rest)
          else if record_type = 1 then Inr st
          else if record_type = 4 then
            load_lines (st\<lparr>extended_address := push_bit 16 (from_bytes_big payload)\<rparr>) rest
          else if record_type = 5 then
            load_lines
              (st\<lparr>self_file := (self_file st)\<lparr>start_address := Some (from_bytes_big payload)\<rparr>\<rparr>)
              rest
          else load_lines st rest)"

definition load_file :: "IntelHexFile \<Rightarrow> string list \<Rightarrow> error + IntelHexFile" where
  "load_file self lines =
     (case load_lines \<lparr>self_file = self, extended_address = 0, first_data_address = None\<rparr> lines of
        Inl e \<Rightarrow> Inl e
      | Inr st \<Rightarrow>
          Inr (if start_address (self_file st) = None
               then (self_file st)\<lparr>start_address := first_data_address st\<rparr>
               else self_file st))"

subsection \<open>\<open>read_memory\<close> and \<open>write_memory\<close>\<close>

text \<open>\<open>HexLike = Union[str, int]\<close>; \<open>write_memory\<close> also has a branch for a value that is
  neither.\<close>

datatype hexlike = HInt int | HStr string

datatype pyvalue = PInt int | PStr string | POther

definition to_int :: "hexlike \<Rightarrow> error + int" where
  "to_int a = (case a of HStr s \<Rightarrow> py_int16 s | HInt n \<Rightarrow> Inr n)"

definition read_memory :: "IntelHexFile \<Rightarrow> hexlike \<Rightarrow> hexlike \<Rightarrow> error + string" where
  "read_memory self address len =
     (case to_int address of Inl e \<Rightarrow> Inl e | Inr addr \<Rightarrow>
      case to_int len of Inl e \<Rightarrow> Inl e | Inr n \<Rightarrow>
        Inr (concat (map (\<lambda>i. format_X 2 (dict_get (data self) (addr + i) 0xFF))
                         (py_range 0 n 1))))"

text \<open>\<open>[int(hex_str[i:i + 2], 16) for i in range(0, len(hex_str), 2)]\<close>: the whole list is
  built, and any conversion error raised, before the loop that writes.\<close>

fun int16_all :: "string list \<Rightarrow> error + int list" where
  "int16_all [] = Inr []"
| "int16_all (c # cs) =
     (case py_int16 c of
        Inl e \<Rightarrow> Inl e
      | Inr v \<Rightarrow> (case int16_all cs of Inl e \<Rightarrow> Inl e | Inr vs \<Rightarrow> Inr (v # vs)))"

definition hex_chunks :: "string \<Rightarrow> string list" where
  "hex_chunks hex_str =
     map (\<lambda>i. py_slice hex_str i (i + 2)) (py_range 0 (int (length hex_str)) 2)"

text \<open>A call of \<open>write_memory\<close> ends in an exception, with the object as it is at the
  raise, or returns, with the object as the call leaves it.\<close>

datatype outcome = Raised error IntelHexFile | Returned IntelHexFile

definition write_memory :: "IntelHexFile \<Rightarrow> hexlike \<Rightarrow> pyvalue \<Rightarrow> outcome" where
  "write_memory self address val =
     (case to_int address of Inl e \<Rightarrow> Raised e self | Inr addr \<Rightarrow>
      case (case val of
              PInt n \<Rightarrow> Inr (format_X 0 n)
            | PStr s \<Rightarrow> Inr (py_upper (py_lstrip ''0x'' s))
            | POther \<Rightarrow> Inl TypeError_data) of
        Inl e \<Rightarrow> Raised e self
      | Inr hex_str \<Rightarrow>
          (case int16_all (hex_chunks hex_str) of
             Inl e \<Rightarrow> Raised e self
           | Inr bytes_data \<Rightarrow> Returned (self\<lparr>data := store_bytes (data self) addr bytes_data\<rparr>)))"

subsection \<open>\<open>save_file\<close>\<close>

text \<open>The lines written, in order, each with its newline. \<open>addresses[0]\<close> raises on an
  empty image.\<close>

definition newline :: string where
  "newline = [CHR 0x0A]"

definition ext_line :: "int \<Rightarrow> string" where
  "ext_line current_ext_addr =
     (let high = current_ext_addr AND 0xFFFF;
          checksum = (- 2 - 4 - drop_bit 8 high - (high AND 0xFF)) AND 0xFF
      in '':02000004'' @ format_X 4 high @ format_X 2 checksum @ newline)"

definition data_line :: "int \<Rightarrow> int list \<Rightarrow> string" where
  "data_line base chunk =
     (let addr_field = format_X 4 (base AND 0xFFFF);
          data_field = concat (map (format_X 2) chunk);
          byte_count = int (length chunk);
          checksum = byte_count + drop_bit 8 base + (base AND 0xFF) + 0 + sum_list chunk;
          checksum' = (- checksum) AND 0xFF
      in '':'' @ format_X 2 byte_count @ addr_field @ ''00'' @ data_field
           @ format_X 2 checksum' @ newline)"

fun save_chunks :: "(int \<times> int) list \<Rightarrow> int option \<Rightarrow> int list \<Rightarrow> string list" where
  "save_chunks d current_ext_addr [] = []"
| "save_chunks d current_ext_addr (base # bases) =
     (let chunk = map (\<lambda>i. dict_get d (base + i) 0xFF) (py_range 0 32 1);
          linear_addr = drop_bit 16 base;
          (current_ext_addr', written) =
            (if Some linear_addr \<noteq> current_ext_addr
             then (Some linear_addr, [ext_line linear_addr])
             else (current_ext_addr, []))
      in written @ [data_line base chunk] @ save_chunks d current_ext_addr' bases)"

definition save_file :: "IntelHexFile \<Rightarrow> error + string list" where
  "save_file self =
     (let addresses = sort (map fst (data self)) in
      if addresses = [] then Inl IndexError
      else Inr (save_chunks (data self) None (py_range (hd addresses) (last addresses + 1) 32)
                @ ['':00000001FF'' @ newline]))"

section \<open>Definitions for the theorems\<close>

text \<open>\<open>spec_checksum\<close> and \<open>spec_extended_offset\<close> follow the words of the specification, to
  be compared with what the code computes; the others name parts of the code above.\<close>

text \<open>The checksum as the specification words it: minus the sum of the count, the
  high byte and the low byte of the address, the type and the payload bytes, modulo 256.\<close>

definition spec_checksum :: "int \<Rightarrow> int \<Rightarrow> int \<Rightarrow> int list \<Rightarrow> int" where
  "spec_checksum count address rtype payload =
     (- (count + (address div 256) mod 256 + address mod 256 + rtype + sum_list payload)) mod 256"

text \<open>Splitting a list into groups of two from the left, the last group shorter when the
  length is odd: what \<open>hex_chunks\<close> computes with slices.\<close>

fun chunks2 :: "'a list \<Rightarrow> 'a list list" where
  "chunks2 [] = []"
| "chunks2 [a] = [[a]]"
| "chunks2 (a # b # r) = [a, b] # chunks2 r"

text \<open>The big-endian bytes of a natural number, without leading zero bytes.\<close>

function be_bytes :: "nat \<Rightarrow> int list" where
  "be_bytes n = (if n < 256 then [int n] else be_bytes (n div 256) @ [int (n mod 256)])"
  by pat_completeness auto
termination
  by (relation "measure id") auto

declare be_bytes.simps [simp del]

text \<open>A decoded record is the triple \<open>parse_line\<close> returns: type, address, payload.
  \<open>decoded\<close> lists the records of the non-blank lines in file order, up to the first
  End-Of-File record, and is the first decoding error if there is one before that.\<close>

type_synonym hexrecord = "int \<times> int \<times> int list"

fun decoded :: "string list \<Rightarrow> error + hexrecord list" where
  "decoded [] = Inr []"
| "decoded (raw # rest) =
     (let line = py_strip raw in
      if line = [] then decoded rest
      else case parse_line line of
        Inl e \<Rightarrow> Inl e
      | Inr (record_type, address, payload) \<Rightarrow>
          if record_type = 1 then Inr []
          else (case decoded rest of
                  Inl e \<Rightarrow> Inl e
                | Inr rs \<Rightarrow> Inr ((record_type, address, payload) # rs)))"

text \<open>The extended offset as the specification words it: initially 0, replaced by the
  payload of each Extended Linear Address record (type 4), read big-endian and shifted
  left by 16 bits.\<close>

definition spec_extended_offset :: "hexrecord list \<Rightarrow> int" where
  "spec_extended_offset recs =
     foldl (\<lambda>off (t, a, p). if t = 4 then from_bytes_big p * 65536 else off) 0 recs"

text \<open>The body of the loop of \<open>load_file\<close> for one decoded record that is no
  End-Of-File record.\<close>

definition record_step :: "load_state \<Rightarrow> hexrecord \<Rightarrow> load_state" where
  "record_step st r =
     (case r of (record_type, address, payload) \<Rightarrow>
        if record_type = 0 then
          (let full_address = extended_address st OR address in
           st\<lparr>self_file := (self_file st)\<lparr>data :=
                  store_bytes (data (self_file st)) full_address payload\<rparr>,
              first_data_address :=
                (if first_data_address st = None then Some full_address
                 else first_data_address st)\<rparr>)
        else if record_type = 4 then
          st\<lparr>extended_address := push_bit 16 (from_bytes_big payload)\<rparr>
        else if record_type = 5 then
          st\<lparr>self_file := (self_file st)\<lparr>start_address := Some (from_bytes_big payload)\<rparr>\<rparr>
        else st)"

text \<open>The chunk that \<open>save_file\<close> builds at a base address: 32 cells, the fill byte
  where the image has none.\<close>

definition chunk_of :: "(int \<times> int) list \<Rightarrow> int \<Rightarrow> int list" where
  "chunk_of d base = map (\<lambda>i. dict_get d (base + i) 0xFF) (py_range 0 32 1)"

text \<open>Every value of the dictionary is a byte.\<close>

definition bytes_ok :: "(int \<times> int) list \<Rightarrow> bool" where
  "bytes_ok d = (\<forall>k v. map_of d k = Some v \<longrightarrow> 0 \<le> v \<and> v < 256)"

text \<open>The bytes a string of hex digits denotes when it is read two digits at a time from
  the left, a last single digit being a byte of its own.\<close>

fun group_bytes :: "string \<Rightarrow> int list" where
  "group_bytes [] = []"
| "group_bytes [c] = [int (digit_value c)]"
| "group_bytes (c # d # r) = int (digit_value c * 16 + digit_value d) # group_bytes r"

section \<open>Bit operations as arithmetic\<close>

lemma and_255_mod: "(x::int) AND 255 = x mod 256"
proof -
  have "x AND mask 8 = x mod 2 ^ 8"
    by (simp only: take_bit_eq_mask[symmetric] take_bit_eq_mod)
  then show ?thesis by (simp add: mask_eq_exp_minus_1)
qed

lemma and_65535_mod: "(x::int) AND 65535 = x mod 65536"
proof -
  have "x AND mask 16 = x mod 2 ^ 16"
    by (simp only: take_bit_eq_mask[symmetric] take_bit_eq_mod)
  then show ?thesis by (simp add: mask_eq_exp_minus_1)
qed

lemma drop_bit_8_div: "drop_bit 8 (x::int) = x div 256"
  by (simp add: drop_bit_eq_div)

lemma drop_bit_16_div: "drop_bit 16 (x::int) = x div 65536"
  by (simp add: drop_bit_eq_div)

lemma neg_sum_mod:
  "(- (bc + y + r + t + s)) mod 256 = (- (bc + y mod 256 + r + t + s)) mod (256::int)"
proof -
  have "(y mod 256 + (bc + r + t + s)) mod 256 = (y + (bc + r + t + s)) mod 256"
    by (rule mod_add_left_eq)
  then have "(bc + y + r + t + s) mod 256 = (bc + y mod 256 + r + t + s) mod 256"
    by (simp only: ac_simps)
  then show ?thesis
    by (rule mod_minus_cong)
qed

lemma computed_checksum_spec:
  "(- (bc + drop_bit 8 a + (a AND 0xFF) + t + sum_list p)) AND 0xFF = spec_checksum bc a t p"
  unfolding spec_checksum_def and_255_mod drop_bit_8_div
  by (rule neg_sum_mod)

section \<open>The record codec\<close>

lemma py_int16_error: "py_int16 s = Inl e \<Longrightarrow> e = ValueError_int"
  by (auto simp: py_int16_def Let_def split: prod.splits if_splits)

lemma fromhex_error: "fromhex s = Inl e \<Longrightarrow> e = ValueError_fromhex"
  by (induction s arbitrary: e rule: fromhex.induct) (auto split: if_splits sum.splits)

lemma parse_fields_error:
  "parse_fields line = Inl e \<Longrightarrow>
     e = ValueError_invalid_line \<or> e = ValueError_int \<or> e = ValueError_fromhex"
  unfolding parse_fields_def
  by (auto simp: Let_def split: sum.splits if_splits dest: py_int16_error fromhex_error)

lemma parse_line_of_fields:
  "parse_fields line = Inr (bc, a, t, p, cs) \<Longrightarrow>
     parse_line line =
       (if spec_checksum bc a t p \<noteq> cs
        then Inl (ValueError_checksum cs (spec_checksum bc a t p))
        else Inr (t, a, p))"
  unfolding parse_line_def
  by (simp only: sum.case prod.case Let_def computed_checksum_spec)

text \<open>
  Claim C2. Once the fields of a line are read, whatever the record type, the checksum
  is recomputed as minus the sum of count, address high byte, address low byte, type
  and payload bytes, modulo 256; \<open>parse_line\<close> raises the checksum error, carrying the
  checksum read from the line and the recomputed one, exactly when the two differ, and
  returns the record otherwise.
\<close>

theorem parse_line_checksum:
  "(\<forall>bc a t p cs. parse_fields line = Inr (bc, a, t, p, cs) \<longrightarrow>
      parse_line line =
        (if spec_checksum bc a t p \<noteq> cs
         then Inl (ValueError_checksum cs (spec_checksum bc a t p))
         else Inr (t, a, p)))
   \<and> (\<forall>e c. parse_line line = Inl (ValueError_checksum e c) \<longrightarrow>
        (\<exists>bc a t p. parse_fields line = Inr (bc, a, t, p, e)
           \<and> c = spec_checksum bc a t p \<and> c \<noteq> e))"
proof (intro conjI allI impI)
  fix bc a t p cs
  assume "parse_fields line = Inr (bc, a, t, p, cs)"
  then show "parse_line line =
        (if spec_checksum bc a t p \<noteq> cs
         then Inl (ValueError_checksum cs (spec_checksum bc a t p))
         else Inr (t, a, p))"
    by (rule parse_line_of_fields)
next
  fix e c
  assume err: "parse_line line = Inl (ValueError_checksum e c)"
  show "\<exists>bc a t p. parse_fields line = Inr (bc, a, t, p, e)
           \<and> c = spec_checksum bc a t p \<and> c \<noteq> e"
  proof (cases "parse_fields line")
    case (Inl x)
    with err have "parse_fields line = Inl (ValueError_checksum e c)"
      by (simp add: parse_line_def)
    from parse_fields_error[OF this] show ?thesis
      by simp
  next
    case (Inr f)
    obtain bc a t p cs where f: "f = (bc, a, t, p, cs)"
      by (cases f) auto
    from parse_line_of_fields[of line bc a t p cs] Inr f err
    have "cs = e \<and> c = spec_checksum bc a t p \<and> c \<noteq> e"
      by (auto split: if_splits)
    with Inr f show ?thesis by auto
  qed
qed

theorem parse_line_checksum_witness:
  "parse_fields '':0100000055AB'' = Inr (1, 0, 0, [85], 171)
   \<and> spec_checksum 1 0 0 [85] = 170
   \<and> parse_line '':0100000055AB'' = Inl (ValueError_checksum 171 170)
   \<and> parse_fields '':020000040001F9'' = Inr (2, 0, 4, [0, 1], 249)
   \<and> spec_checksum 2 0 4 [0, 1] = 249
   \<and> parse_line '':020000040001F9'' = Inr (4, 0, [0, 1])
   \<and> parse_line '':00000001FE'' = Inl (ValueError_checksum 254 255)"
proof -
  have f1: "parse_fields '':0100000055AB'' = Inr (1, 0, 0, [85], 171)" by code_simp
  have c1: "spec_checksum 1 0 0 [85] = 170" by code_simp
  have f2: "parse_fields '':020000040001F9'' = Inr (2, 0, 4, [0, 1], 249)" by code_simp
  have c2: "spec_checksum 2 0 4 [0, 1] = 249" by code_simp
  have f3: "parse_fields '':00000001FE'' = Inr (0, 0, 1, [], 254)" by code_simp
  have c3: "spec_checksum 0 0 1 [] = 255" by code_simp
  note th = parse_line_checksum[THEN conjunct1, rule_format]
  from th[OF f1] c1 have "parse_line '':0100000055AB'' = Inl (ValueError_checksum 171 170)"
    by simp
  moreover from th[OF f2] c2 have "parse_line '':020000040001F9'' = Inr (4, 0, [0, 1])"
    by simp
  moreover from th[OF f3] c3 have "parse_line '':00000001FE'' = Inl (ValueError_checksum 254 255)"
    by simp
  ultimately show ?thesis using f1 c1 f2 c2 by simp
qed

section \<open>The file loader\<close>

lemma load_lines_eof:
  assumes "py_strip l \<noteq> []" and "parse_line (py_strip l) = Inr (1, a, p)"
  shows "load_lines st (pre @ l # post) = load_lines st (pre @ [l])"
  using assms
  by (induction pre arbitrary: st) (auto simp: Let_def split: sum.splits prod.splits)

text \<open>
  Claim C7. When a line of the sequence decodes to an End-Of-File record (type 1), what
  \<open>load_file\<close> returns does not depend on the lines after it: they are never decoded,
  so a malformed line there neither makes the load fail nor changes the image.
\<close>

theorem load_stops_at_eof:
  assumes "py_strip l \<noteq> []" and "parse_line (py_strip l) = Inr (1, a, p)"
  shows "load_file self (pre @ l # post) = load_file self (pre @ [l])"
  unfolding load_file_def
  by (simp only: load_lines_eof[OF assms, of _ pre post])

theorem load_stops_at_eof_witness:
  "load_file new_file
     ['':0100000055AA'' @ newline, '':00000001FF'' @ newline, ''garbage'', '':01'']
     = Inr \<lparr>data = [(0, 85)], start_address = Some 0\<rparr>
   \<and> parse_line (py_strip ('':00000001FF'' @ newline)) = Inr (1, 0, [])
   \<and> parse_line (py_strip ''garbage'') = Inl ValueError_invalid_line
   \<and> parse_line (py_strip '':01'') = Inl ValueError_int"
proof -
  have h1: "py_strip ('':00000001FF'' @ newline) \<noteq> []" by code_simp
  have h2: "parse_line (py_strip ('':00000001FF'' @ newline)) = Inr (1, 0, [])" by code_simp
  have h3: "load_file new_file ['':0100000055AA'' @ newline, '':00000001FF'' @ newline]
     = Inr \<lparr>data = [(0, 85)], start_address = Some 0\<rparr>" by code_simp
  have h4: "parse_line (py_strip ''garbage'') = Inl ValueError_invalid_line" by code_simp
  have h5: "parse_line (py_strip '':01'') = Inl ValueError_int" by code_simp
  from load_stops_at_eof[OF h1 h2, of new_file "['':0100000055AA'' @ newline]"
      "[''garbage'', '':01'']"] h3
  have "load_file new_file
      ['':0100000055AA'' @ newline, '':00000001FF'' @ newline, ''garbage'', '':01'']
     = Inr \<lparr>data = [(0, 85)], start_address = Some 0\<rparr>" by simp
  with h2 h4 h5 show ?thesis by simp
qed

section \<open>Truncated records\<close>

lemma py_int16_Nil: "py_int16 [] = Inl ValueError_int"
  by (simp add: py_int16_def strip_sign_def strip_prefix16_def)

lemma py_slice_beyond: "0 \<le> i \<Longrightarrow> int (length s) \<le> i \<Longrightarrow> py_slice s i j = []"
  by (auto simp: py_slice_def Let_def)

text \<open>
  Claim C3, as the code has it. \<open>parse_line\<close> has no check of the line's length. When
  the byte count read from the line is \<open>n \<ge> 0\<close> and at most \<open>2 * n\<close> characters follow the
  type field (the line is two or more characters short), the slice for the checksum is
  empty and the line is refused, by the error of a hex conversion and never as a
  checksum mismatch. A line that is one character short is not refused for its length:
  its last character alone is read as the checksum.
\<close>

theorem short_record_fails:
  assumes "py_int16 (py_slice (tl line) 0 2) = Inr n" and "0 \<le> n"
    and "int (length (tl line)) \<le> 8 + 2 * n"
  shows "parse_line line = Inl ValueError_invalid_line
       \<or> parse_line line = Inl ValueError_int
       \<or> parse_line line = Inl ValueError_fromhex"
proof -
  have "py_slice (tl line) (8 + n * 2) (10 + n * 2) = []"
    using assms(2,3) by (intro py_slice_beyond) auto
  then have "\<exists>e. parse_fields line = Inl e"
    using assms(1)
    by (auto simp: parse_fields_def Let_def py_int16_Nil split: sum.splits)
  then obtain e where e: "parse_fields line = Inl e" ..
  then have "parse_line line = Inl e"
    by (simp add: parse_line_def)
  with parse_fields_error[OF e] show ?thesis by auto
qed

theorem short_record_fails_witness:
  "py_int16 (py_slice (tl '':0200000055AA'') 0 2) = Inr 2 \<and> (0::int) \<le> 2
   \<and> int (length (tl '':0200000055AA'')) \<le> 8 + 2 * 2
   \<and> parse_line '':0200000055AA'' = Inl ValueError_int"
proof -
  have h1: "py_int16 (py_slice (tl '':0200000055AA'') 0 2) = Inr 2" by code_simp
  have h2: "(0::int) \<le> 2" by simp
  have h3: "int (length (tl '':0200000055AA'')) \<le> 8 + 2 * 2" by simp
  have n1: "parse_line '':0200000055AA'' \<noteq> Inl ValueError_invalid_line" by code_simp
  have n2: "parse_line '':0200000055AA'' \<noteq> Inl ValueError_fromhex" by code_simp
  from short_record_fails[OF h1 h2 h3] n1 n2
  have "parse_line '':0200000055AA'' = Inl ValueError_int" by blast
  with h1 h3 show ?thesis by simp
qed

text \<open>The line \<open>:01000000FE1\<close> declares one payload byte, so four characters should follow
  the type field; three do, and the record is returned.\<close>

theorem one_short_record_accepted:
  "py_int16 (py_slice (tl '':01000000FE1'') 0 2) = Inr 1
   \<and> int (length (drop 8 (tl '':01000000FE1''))) < 2 * 1 + 2
   \<and> parse_line '':01000000FE1'' = Inr (0, 0, [254])"
  by code_simp

section \<open>\<open>write_memory\<close>\<close>

lemma py_range_0_2: "py_range 0 (int n) 2 = map (\<lambda>k. 2 * int k) [0..<(n + 1) div 2]"
proof -
  have "nat ((int n - 0 + 2 - 1) div 2) = (n + 1) div 2"
    by (simp add: nat_div_distrib nat_add_distrib)
  then show ?thesis
    by (simp add: py_range_def)
qed

lemma py_slice_nonneg:
  "0 \<le> i \<Longrightarrow> i \<le> j \<Longrightarrow> py_slice s i j = take (nat (j - i)) (drop (nat i) s)"
  by (auto simp: py_slice_def Let_def min_def)

lemma hex_chunks_alt:
  "hex_chunks s = map (\<lambda>k. take 2 (drop (2 * k) s)) [0..<(length s + 1) div 2]"
proof -
  have "py_slice s (2 * int k) (2 * int k + 2) = take 2 (drop (2 * k) s)" for k
    by (subst py_slice_nonneg) (auto simp: nat_mult_distrib)
  then show ?thesis
    by (simp add: hex_chunks_def py_range_0_2 o_def)
qed

lemma hex_chunks_chunks2: "hex_chunks s = chunks2 s"
proof (induction s rule: chunks2.induct)
  case 1
  show ?case by (simp add: hex_chunks_alt)
next
  case (2 a)
  show ?case by (simp add: hex_chunks_alt)
next
  case (3 a b r)
  have "[0..<(length (a # b # r) + 1) div 2] = 0 # map Suc [0..<(length r + 1) div 2]"
    by (simp add: upt_conv_Cons map_Suc_upt del: upt_Suc)
  then have "hex_chunks (a # b # r) = [a, b] # hex_chunks r"
    by (simp add: hex_chunks_alt o_def del: upt_Suc)
  with 3 show ?case by simp
qed

lemma digit_value_hexchar: "d < 16 \<Longrightarrow> digit_value (hexchar d) = d"
proof -
  assume "d < 16"
  then have "d \<in> {0,1,2,3,4,5,6,7,8,9,10,11,12,13,14,15}" by simp arith
  then show ?thesis
    by (auto simp: hexchar_def digit_value_def)
qed

lemma is_digit16_hexchar: "d < 16 \<Longrightarrow> is_digit16 (hexchar d)"
  by (simp add: is_digit16_def digit_value_hexchar)

lemma is_digit16_props:
  assumes "is_digit16 c"
  shows "(of_char c :: nat) < 127" "\<not> Py_ISSPACE c" "c \<noteq> CHR ''+''" "c \<noteq> CHR ''-''"
    "c \<noteq> CHR ''x''" "c \<noteq> CHR ''X''" "c \<noteq> CHR ''_''"
  using assms
  by (auto simp: is_digit16_def digit_value_def Py_ISSPACE_def Let_def split: if_splits)

lemma transform_ascii_id: "\<forall>c\<in>set s. (of_char c :: nat) < 127 \<Longrightarrow> transform_ascii s = s"
  by (induction s) auto

lemma bad_underscores_none: "CHR ''_'' \<notin> set s \<Longrightarrow> \<not> bad_underscores s"
  by (induction s rule: bad_underscores.induct) auto

lemma strip_prefix16_digits:
  "\<forall>c\<in>set s. is_digit16 c \<Longrightarrow> strip_prefix16 s = s"
  by (auto simp: strip_prefix16_def is_digit16_props split: list.splits)

lemma py_int16_hex:
  assumes ne: "s \<noteq> []" and dig: "\<forall>c\<in>set s. is_digit16 c"
  shows "py_int16 s = Inr (digits_value s)"
proof -
  obtain c r where s: "s = c # r" using ne by (cases s) auto
  have c: "is_digit16 c" using dig s by simp
  have t: "transform_ascii s = s"
    using dig by (intro transform_ascii_id) (auto simp: is_digit16_props)
  have d: "dropWhile Py_ISSPACE s = s"
    using c s by (simp add: is_digit16_props)
  have sg: "strip_sign s = (False, s)"
    using c s by (simp add: strip_sign_def is_digit16_props)
  have pf: "strip_prefix16 s = s"
    using dig by (rule strip_prefix16_digits)
  have tw: "takeWhile (\<lambda>c. is_digit16 c \<or> c = CHR ''_'') s = s"
    using dig by (simp add: takeWhile_eq_all_conv)
  have dw: "dropWhile (\<lambda>c. is_digit16 c \<or> c = CHR ''_'') s = []"
    using dig by simp
  have nu: "CHR ''_'' \<notin> set s"
    using dig is_digit16_props(7) by blast
  have fl: "filter (\<lambda>c. c \<noteq> CHR ''_'') s = s"
    using nu by (auto simp: filter_id_conv)
  have hd: "hd s \<noteq> CHR ''_''"
    using c s by (simp add: is_digit16_props)
  show ?thesis
    using ne hd bad_underscores_none[OF nu]
    by (simp add: py_int16_def Let_def t d sg pf tw dw fl)
qed

lemma py_int16_hex1: "a < 16 \<Longrightarrow> py_int16 [hexchar a] = Inr (int a)"
  by (subst py_int16_hex) (auto simp: is_digit16_hexchar digits_value_def digit_value_hexchar)

lemma py_int16_hex2:
  "a < 16 \<Longrightarrow> b < 16 \<Longrightarrow> py_int16 [hexchar a, hexchar b] = Inr (int (a * 16 + b))"
  by (subst py_int16_hex) (auto simp: is_digit16_hexchar digits_value_def digit_value_hexchar)

lemma int16_all_append:
  "int16_all (xs @ ys) =
     (case int16_all xs of Inl e \<Rightarrow> Inl e
      | Inr a \<Rightarrow> (case int16_all ys of Inl e \<Rightarrow> Inl e | Inr b \<Rightarrow> Inr (a @ b)))"
  by (induction xs) (auto split: sum.splits)

lemma chunks2_append_even:
  "even (length xs) \<Longrightarrow> chunks2 (xs @ ys) = chunks2 xs @ chunks2 ys"
  by (induction xs rule: chunks2.induct) auto

lemma hex_upper_small: "n < 16 \<Longrightarrow> hex_upper n = [hexchar n]"
  by (simp add: hex_upper.simps)

lemma hex_upper_step: "16 \<le> n \<Longrightarrow> hex_upper n = hex_upper (n div 16) @ [hexchar (n mod 16)]"
  by (subst hex_upper.simps) simp

lemma hex_upper_two: "16 \<le> n \<Longrightarrow> n < 256 \<Longrightarrow> hex_upper n = [hexchar (n div 16), hexchar (n mod 16)]"
  by (simp add: hex_upper_step hex_upper_small less_mult_imp_div_less)

lemma hex_upper_step2:
  "256 \<le> n \<Longrightarrow>
     hex_upper n = hex_upper (n div 256) @ [hexchar (n div 16 mod 16), hexchar (n mod 16)]"
proof -
  assume n: "256 \<le> n"
  then have "16 \<le> n div 16" by arith
  then have "hex_upper (n div 16) = hex_upper (n div 16 div 16) @ [hexchar (n div 16 mod 16)]"
    by (rule hex_upper_step)
  moreover have "n div 16 div 16 = n div 256" by (simp add: div_mult2_eq[symmetric])
  ultimately show ?thesis using n by (simp add: hex_upper_step)
qed

lemma even_hex_bytes:
  "even (length (hex_upper m)) \<Longrightarrow> int16_all (chunks2 (hex_upper m)) = Inr (be_bytes m)"
proof (induction m rule: be_bytes.induct)
  case (1 n)
  show ?case
  proof (cases "n < 256")
    case True
    with "1.prems" have "16 \<le> n"
      by (cases "n < 16") (auto simp: hex_upper_small)
    with True show ?thesis
      by (simp add: hex_upper_two py_int16_hex2 be_bytes.simps[of n])
  next
    case False
    then have n: "256 \<le> n" by simp
    have ev: "even (length (hex_upper (n div 256)))"
      using "1.prems" by (simp add: hex_upper_step2[OF n])
    have ih: "int16_all (chunks2 (hex_upper (n div 256))) = Inr (be_bytes (n div 256))"
      using "1.IH" False ev by simp
    have b: "(n div 16 mod 16) * 16 + n mod 16 = n mod 256"
      using mod_mult2_eq[of n 16 16] by simp
    show ?thesis
      using False
      by (simp add: hex_upper_step2[OF n] chunks2_append_even[OF ev] int16_all_append ih
          py_int16_hex2 b be_bytes.simps[of n])
  qed
qed

lemma odd_hex_bytes:
  assumes "odd (length (hex_upper m))"
  shows "int16_all (chunks2 (hex_upper m))
       = Inr ((if m < 16 then [] else be_bytes (m div 16)) @ [int (m mod 16)])"
proof (cases "m < 16")
  case True
  then show ?thesis by (simp add: hex_upper_small py_int16_hex1)
next
  case False
  then have m: "16 \<le> m" by simp
  have ev: "even (length (hex_upper (m div 16)))"
    using assms by (simp add: hex_upper_step[OF m])
  show ?thesis
    using False
    by (simp add: hex_upper_step[OF m] chunks2_append_even[OF ev] int16_all_append
        even_hex_bytes[OF ev] py_int16_hex1)
qed

lemma format_X_0_nonneg: "0 \<le> n \<Longrightarrow> format_X 0 n = hex_upper (nat n)"
  by (simp add: format_X_def Let_def)

text \<open>
  Claim C8, as the code has it. \<open>write_memory\<close> formats a non-negative integer with
  \<open>format(n, 'X')\<close> and cuts the digits into groups of two from the left, with no padding.
  With an even number of digits the bytes written are the big-endian bytes of the
  value. With an odd number of digits the last digit is a byte of its own: the bytes are
  the big-endian bytes of \<open>n div 16\<close> followed by \<open>n mod 16\<close>. No digit is lost, but the
  bytes are not those of the value: \<open>0xABC\<close> is written as \<open>0xAB, 0x0C\<close>.
\<close>

theorem write_memory_int_unpadded:
  assumes "0 \<le> n"
  shows "write_memory self (HInt addr) (PInt n) =
     Returned (self\<lparr>data := store_bytes (data self) addr
        (if even (length (hex_upper (nat n))) then be_bytes (nat n)
         else (if n < 16 then [] else be_bytes (nat n div 16)) @ [n mod 16])\<rparr>)"
proof (cases "even (length (hex_upper (nat n)))")
  case True
  then show ?thesis
    using assms
    by (simp add: write_memory_def to_int_def format_X_0_nonneg hex_chunks_chunks2 even_hex_bytes)
next
  case False
  have "int (nat n mod 16) = n mod 16"
    using assms by (simp add: zmod_int)
  moreover have "(nat n < 16) = (n < 16)"
    using assms by auto
  ultimately show ?thesis
    using assms False
    by (simp add: write_memory_def to_int_def format_X_0_nonneg hex_chunks_chunks2 odd_hex_bytes)
qed

theorem write_memory_int_unpadded_witness:
  "(0::int) \<le> 0xABC
   \<and> write_memory new_file (HInt 0x10) (PInt 0xABC)
       = Returned \<lparr>data = [(0x10, 0xAB), (0x11, 0x0C)], start_address = None\<rparr>
   \<and> length (hex_upper (nat 0xABC)) = 3"
proof -
  have h: "(0::int) \<le> 0xABC" by simp
  have l: "length (hex_upper (nat 0xABC)) = 3" by code_simp
  have b: "be_bytes (nat 0xABC div 16) = [0xAB]" by code_simp
  have s: "store_bytes (data new_file) 0x10 [0xAB, 0x0C] = [(0x10, 0xAB), (0x11, 0x0C)]"
    by code_simp
  have n: "new_file\<lparr>data := [(0x10, 0xAB), (0x11, 0x0C)]\<rparr>
      = \<lparr>data = [(0x10, 0xAB), (0x11, 0x0C)], start_address = None\<rparr>"
    by (simp add: new_file_def)
  from write_memory_int_unpadded[OF h, of new_file "0x10"] l b s n
  have "write_memory new_file (HInt 0x10) (PInt 0xABC)
       = Returned \<lparr>data = [(0x10, 0xAB), (0x11, 0x0C)], start_address = None\<rparr>"
    by simp
  with h l show ?thesis by simp
qed

text \<open>Writing \<open>0xABC\<close> stores \<open>0xAB, 0x0C\<close>, not \<open>0x0A, 0xBC\<close>.\<close>

theorem write_memory_int_0xABC:
  "write_memory new_file (HInt 0) (PInt 0xABC)
     = Returned \<lparr>data = [(0, 0xAB), (1, 0x0C)], start_address = None\<rparr>
   \<and> write_memory new_file (HInt 0) (PInt 0xABC)
     \<noteq> Returned \<lparr>data = [(0, 0x0A), (1, 0xBC)], start_address = None\<rparr>"
  by code_simp

text \<open>
  Claim C9. Whenever \<open>write_memory\<close> raises, the object is as it was before the call: the
  address and every group of the value are converted before the first byte is stored.
  A value that is neither \<open>int\<close> nor \<open>str\<close> raises the type error, and a string with a
  group that \<open>int(_, 16)\<close> refuses raises that error, both with the image unchanged.
\<close>

theorem write_memory_raise_unchanged:
  "(\<forall>e self'. write_memory self address v = Raised e self' \<longrightarrow> self' = self)
   \<and> write_memory self (HInt a) POther = Raised TypeError_data self
   \<and> (\<forall>s e. int16_all (hex_chunks (py_upper (py_lstrip ''0x'' s))) = Inl e \<longrightarrow>
         write_memory self (HInt a) (PStr s) = Raised e self)"
  by (auto simp: write_memory_def to_int_def split: sum.splits pyvalue.splits)

theorem write_memory_raise_unchanged_witness:
  "int16_all (hex_chunks (py_upper (py_lstrip ''0x'' ''ABZZ''))) = Inl ValueError_int
   \<and> write_memory \<lparr>data = [(0, 1)], start_address = None\<rparr> (HInt 0) (PStr ''ABZZ'')
       = Raised ValueError_int \<lparr>data = [(0, 1)], start_address = None\<rparr>
   \<and> write_memory \<lparr>data = [(0, 1)], start_address = None\<rparr> (HInt 0) (PStr ''AB'')
       = Returned \<lparr>data = [(0, 0xAB)], start_address = None\<rparr>"
proof -
  have f: "int16_all (hex_chunks (py_upper (py_lstrip ''0x'' ''ABZZ''))) = Inl ValueError_int"
    by code_simp
  have g: "write_memory \<lparr>data = [(0, 1)], start_address = None\<rparr> (HInt 0) (PStr ''AB'')
       = Returned \<lparr>data = [(0, 0xAB)], start_address = None\<rparr>"
    by code_simp
  from write_memory_raise_unchanged[THEN conjunct2, THEN conjunct2, rule_format, OF f]
  have "write_memory \<lparr>data = [(0, 1)], start_address = None\<rparr> (HInt 0) (PStr ''ABZZ'')
       = Raised ValueError_int \<lparr>data = [(0, 1)], start_address = None\<rparr>" .
  with f g show ?thesis by simp
qed

lemma lstrip_prefix:
  "\<forall>c\<in>set p. c = CHR ''0'' \<or> c = CHR ''x'' \<Longrightarrow> py_lstrip ''0x'' (p @ t) = py_lstrip ''0x'' t"
  by (induction p) (auto simp: py_lstrip_def)

lemma lstrip_0X: "py_lstrip ''0x'' (CHR ''0'' # CHR ''X'' # t) = CHR ''X'' # t"
  by (simp add: py_lstrip_def)

lemma py_int16_X: "py_int16 (CHR ''X'' # r) = Inl ValueError_int"
  by (simp add: py_int16_def Let_def strip_sign_def strip_prefix16_def is_digit16_def
      digit_value_def Py_ISSPACE_def split: list.splits)

lemma int16_all_chunks_X: "int16_all (chunks2 (CHR ''X'' # r)) = Inl ValueError_int"
  by (cases r) (simp_all add: py_int16_X)

lemma py_upper_X: "py_upper (CHR ''X'' # t) = CHR ''X'' # py_upper t"
  by (simp add: py_upper_def py_upper_char_def)

lemma upper_digit16:
  assumes "is_digit16 c"
  shows "is_digit16 (py_upper_char c)" and "digit_value (py_upper_char c) = digit_value c"
proof -
  define n where "n = (of_char c :: nat)"
  have c: "c = char_of n" by (simp add: n_def)
  have n: "(48 \<le> n \<and> n \<le> 57) \<or> (97 \<le> n \<and> n \<le> 102) \<or> (65 \<le> n \<and> n \<le> 70)"
    using assms unfolding is_digit16_def digit_value_def Let_def n_def[symmetric]
    by (auto split: if_splits)
  have u: "py_upper_char c = (if 97 \<le> n \<and> n \<le> 102 then char_of (n - 32) else c)"
    using n by (auto simp: py_upper_char_def Let_def n_def[symmetric])
  have o: "(of_char (char_of (n - 32)) :: nat) = n - 32" if "97 \<le> n \<and> n \<le> 102"
  proof -
    from that have "n - 32 < 256" by linarith
    then show ?thesis by (simp add: of_char_of)
  qed
  show "digit_value (py_upper_char c) = digit_value c"
    using n o by (auto simp: u digit_value_def Let_def n_def[symmetric])
  then show "is_digit16 (py_upper_char c)"
    using assms by (simp add: is_digit16_def)
qed

lemma digits_value_2:
  "digits_value [c, d] = int (digit_value c * 16 + digit_value d)"
  by (simp add: digits_value_def)

lemma digits_value_1: "digits_value [c] = int (digit_value c)"
  by (simp add: digits_value_def)

lemma int16_all_group_bytes:
  "\<forall>c\<in>set u. is_digit16 c \<Longrightarrow> int16_all (chunks2 u) = Inr (group_bytes u)"
proof (induction u rule: chunks2.induct)
  case 1
  show ?case by simp
next
  case (2 a)
  then have "py_int16 [a] = Inr (digits_value [a])"
    by (intro py_int16_hex) simp_all
  then show ?case by (simp add: digits_value_1)
next
  case (3 a b r)
  then have "py_int16 [a, b] = Inr (digits_value [a, b])"
    by (intro py_int16_hex) simp_all
  with 3 show ?case
    by (simp add: digits_value_2 del: of_nat_add of_nat_mult)
qed

lemma group_bytes_upper:
  "\<forall>c\<in>set t. is_digit16 c \<Longrightarrow> group_bytes (py_upper t) = group_bytes t"
  by (induction t rule: group_bytes.induct) (simp_all add: py_upper_def upper_digit16)

lemma upper_all_digits:
  "\<forall>c\<in>set t. is_digit16 c \<Longrightarrow> \<forall>c\<in>set (py_upper t). is_digit16 c"
  by (auto simp: py_upper_def upper_digit16)

lemma lstrip_none:
  "t = [] \<or> (hd t \<noteq> CHR ''0'' \<and> hd t \<noteq> CHR ''x'') \<Longrightarrow> py_lstrip ''0x'' t = t"
  by (cases t) (auto simp: py_lstrip_def)

lemma write_memory_digits:
  assumes "\<forall>c\<in>set t. is_digit16 c" and "t = [] \<or> hd t \<noteq> CHR ''0''"
  shows "write_memory self (HInt a) (PStr t) =
     Returned (self\<lparr>data := store_bytes (data self) a (group_bytes t)\<rparr>)"
proof -
  have "t = [] \<or> (hd t \<noteq> CHR ''0'' \<and> hd t \<noteq> CHR ''x'')"
    using assms by (cases t) (auto simp: is_digit16_props)
  then have l: "py_lstrip ''0x'' t = t" by (rule lstrip_none)
  show ?thesis
    by (simp add: write_memory_def to_int_def l hex_chunks_chunks2
        int16_all_group_bytes[OF upper_all_digits[OF assms(1)]] group_bytes_upper[OF assms(1)])
qed

text \<open>
  Claim C10, as the code has it. For a string value \<open>write_memory\<close> drops every leading
  character that is \<open>0\<close> or \<open>x\<close>, not just a prefix \<open>0x\<close>: a string with any such prefix
  writes what the string without it writes. When what is left is a string of hex digits,
  the bytes stored are its digits taken two at a time from the left, a last single digit
  as a byte of its own: \<open>00AB\<close> stores only \<open>0xAB\<close>. The leading zero digit of the first
  byte that is not zero is dropped with the zero bytes, and the digits left are grouped
  anew. An upper-case prefix \<open>0X\<close> loses only its \<open>0\<close>, and the \<open>X\<close> left in front makes the
  conversion raise.
\<close>

theorem write_memory_str_lstrip:
  "(\<forall>p t. (\<forall>c\<in>set p. c = CHR ''0'' \<or> c = CHR ''x'') \<longrightarrow>
        write_memory self address (PStr (p @ t)) = write_memory self address (PStr t))
   \<and> (\<forall>p t. (\<forall>c\<in>set p. c = CHR ''0'' \<or> c = CHR ''x'') \<and> (\<forall>c\<in>set t. is_digit16 c)
          \<and> (t = [] \<or> hd t \<noteq> CHR ''0'') \<longrightarrow>
        write_memory self (HInt a) (PStr (p @ t)) =
          Returned (self\<lparr>data := store_bytes (data self) a (group_bytes t)\<rparr>))
   \<and> (\<forall>t. py_lstrip ''0x'' (''0X'' @ t) = ''X'' @ t
        \<and> write_memory self (HInt a) (PStr (''0X'' @ t)) = Raised ValueError_int self)"
proof (intro conjI allI impI)
  fix p t
  assume "\<forall>c\<in>set p. c = CHR ''0'' \<or> c = CHR ''x''"
  then show "write_memory self address (PStr (p @ t)) = write_memory self address (PStr t)"
    by (cases "to_int address") (simp_all add: write_memory_def lstrip_prefix)
next
  fix p t
  assume h: "(\<forall>c\<in>set p. c = CHR ''0'' \<or> c = CHR ''x'') \<and> (\<forall>c\<in>set t. is_digit16 c)
          \<and> (t = [] \<or> hd t \<noteq> CHR ''0'')"
  then have "write_memory self (HInt a) (PStr (p @ t)) = write_memory self (HInt a) (PStr t)"
    by (simp add: write_memory_def to_int_def lstrip_prefix)
  also have "\<dots> = Returned (self\<lparr>data := store_bytes (data self) a (group_bytes t)\<rparr>)"
    using h by (intro write_memory_digits) simp_all
  finally show "write_memory self (HInt a) (PStr (p @ t)) =
          Returned (self\<lparr>data := store_bytes (data self) a (group_bytes t)\<rparr>)" .
next
  fix t
  show "py_lstrip ''0x'' (''0X'' @ t) = ''X'' @ t"
    by (simp add: lstrip_0X)
  show "write_memory self (HInt a) (PStr (''0X'' @ t)) = Raised ValueError_int self"
    by (simp add: write_memory_def to_int_def lstrip_0X py_upper_X hex_chunks_chunks2
        int16_all_chunks_X)
qed

theorem write_memory_str_lstrip_witness:
  "write_memory new_file (HInt 0) (PStr ''00AB'')
     = Returned \<lparr>data = [(0, 0xAB)], start_address = None\<rparr>
   \<and> write_memory new_file (HInt 0) (PStr ''0x0a0b'')
     = Returned \<lparr>data = [(0, 0xA0), (1, 0x0B)], start_address = None\<rparr>
   \<and> write_memory new_file (HInt 0) (PStr ''0x00AB'')
     = write_memory new_file (HInt 0) (PStr ''AB'')
   \<and> write_memory new_file (HInt 0) (PStr ''0XAB'') = Raised ValueError_int new_file"
proof -
  have p1: "(\<forall>c\<in>set ''00''. c = CHR ''0'' \<or> c = CHR ''x'') \<and> (\<forall>c\<in>set ''AB''. is_digit16 c)
      \<and> (''AB'' = [] \<or> hd ''AB'' \<noteq> CHR ''0'')"
    by (simp add: is_digit16_def digit_value_def)
  have p2: "(\<forall>c\<in>set ''0x0''. c = CHR ''0'' \<or> c = CHR ''x'') \<and> (\<forall>c\<in>set ''a0b''. is_digit16 c)
      \<and> (''a0b'' = [] \<or> hd ''a0b'' \<noteq> CHR ''0'')"
    by (simp add: is_digit16_def digit_value_def)
  have p3: "\<forall>c\<in>set ''0x00''. c = CHR ''0'' \<or> c = CHR ''x''" by simp
  have g1: "new_file\<lparr>data := store_bytes (data new_file) 0 (group_bytes ''AB'')\<rparr>
      = \<lparr>data = [(0, 0xAB)], start_address = None\<rparr>"
    by code_simp
  have g2: "new_file\<lparr>data := store_bytes (data new_file) 0 (group_bytes ''a0b'')\<rparr>
      = \<lparr>data = [(0, 0xA0), (1, 0x0B)], start_address = None\<rparr>"
    by code_simp
  note th2 = write_memory_str_lstrip[THEN conjunct2, THEN conjunct1, THEN spec, THEN spec, THEN mp]
  from th2[OF p1, of new_file 0] g1
  have a: "write_memory new_file (HInt 0) (PStr ''00AB'')
     = Returned \<lparr>data = [(0, 0xAB)], start_address = None\<rparr>" by simp
  from th2[OF p2, of new_file 0] g2
  have b: "write_memory new_file (HInt 0) (PStr ''0x0a0b'')
     = Returned \<lparr>data = [(0, 0xA0), (1, 0x0B)], start_address = None\<rparr>" by simp
  from write_memory_str_lstrip[THEN conjunct1, THEN spec, THEN spec, THEN mp, OF p3,
      of new_file "HInt 0" "''AB''"]
  have c: "write_memory new_file (HInt 0) (PStr ''0x00AB'')
     = write_memory new_file (HInt 0) (PStr ''AB'')" by simp
  from write_memory_str_lstrip[THEN conjunct2, THEN conjunct2, rule_format, THEN conjunct2,
      of new_file 0 "''AB''"]
  have d: "write_memory new_file (HInt 0) (PStr ''0XAB'') = Raised ValueError_int new_file"
    by simp
  from a b c d show ?thesis by (intro conjI)
qed

text \<open>The string \<open>000A0B\<close> begins with a zero byte and goes on with the bytes \<open>0A 0B\<close>;
  three characters are dropped and \<open>A0 0B\<close> is stored.\<close>

theorem write_memory_str_regroups:
  "write_memory new_file (HInt 0) (PStr ''000A0B'')
     = Returned \<lparr>data = [(0, 0xA0), (1, 0x0B)], start_address = None\<rparr>
   \<and> group_bytes ''0A0B'' = [0x0A, 0x0B]
   \<and> write_memory new_file (HInt 0) (PStr ''000A0B'')
     \<noteq> Returned (new_file\<lparr>data := store_bytes (data new_file) 0 (group_bytes ''0A0B'')\<rparr>)"
  by code_simp

section \<open>\<open>read_memory\<close>\<close>

lemma py_range_0_1: "py_range 0 n 1 = map int [0..<nat n]"
  by (simp add: py_range_def)

lemma format_X_2_byte:
  assumes "0 \<le> v" and "v < 256"
  shows "format_X 2 v = [hexchar (nat v div 16), hexchar (nat v mod 16)]"
proof (cases "v < 16")
  case True
  then have "hexchar (nat v div 16) = CHR ''0''"
    using assms by (simp add: hexchar_def)
  with True assms show ?thesis
    by (simp add: format_X_def Let_def hex_upper_small)
next
  case False
  with assms have "16 \<le> nat v" "nat v < 256" by auto
  then show ?thesis
    using assms by (simp add: format_X_def Let_def hex_upper_two)
qed

lemma format_X_2_FF: "format_X 2 0xFF = ''FF''"
  by (simp add: format_X_2_byte hexchar_def)

text \<open>
  Claim C6. For every integer address and length, \<open>read_memory\<close> never raises: it
  returns one group per position \<open>addr + i\<close>, \<open>i < length\<close> (none when the length is not
  positive), which is the stored value in the format \<open>02X\<close> where the address is
  populated and \<open>FF\<close>, the fill byte, where it was never written; a stored byte (0 to
  255) is rendered as two upper-case hex digits. An address or a length given as a string
  that denotes an integer reads as that integer, so it never raises either.
\<close>

theorem read_memory_fill:
  "read_memory self (HInt addr) (HInt n) =
      Inr (concat (map (\<lambda>i. case map_of (data self) (addr + int i) of
                                Some v \<Rightarrow> format_X 2 v
                              | None \<Rightarrow> ''FF'') [0..<nat n]))
   \<and> (\<forall>v. 0 \<le> v \<and> v < 256 \<longrightarrow>
         format_X 2 v = [hexchar (nat v div 16), hexchar (nat v mod 16)])
   \<and> (\<forall>x y a k. to_int x = Inr a \<and> to_int y = Inr k \<longrightarrow>
         read_memory self x y = read_memory self (HInt a) (HInt k))"
proof (intro conjI allI impI)
  have "(\<lambda>i. format_X 2 (dict_get (data self) (addr + int i) 0xFF))
      = (\<lambda>i. case map_of (data self) (addr + int i) of Some v \<Rightarrow> format_X 2 v | None \<Rightarrow> ''FF'')"
    by (rule ext) (simp add: dict_get_def format_X_2_FF split: option.splits)
  then show "read_memory self (HInt addr) (HInt n) =
      Inr (concat (map (\<lambda>i. case map_of (data self) (addr + int i) of
                                Some v \<Rightarrow> format_X 2 v
                              | None \<Rightarrow> ''FF'') [0..<nat n]))"
    by (simp add: read_memory_def to_int_def py_range_0_1 o_def)
next
  fix v :: int
  assume "0 \<le> v \<and> v < 256"
  then show "format_X 2 v = [hexchar (nat v div 16), hexchar (nat v mod 16)]"
    by (simp add: format_X_2_byte)
next
  fix x y a k
  assume "to_int x = Inr a \<and> to_int y = Inr k"
  then show "read_memory self x y = read_memory self (HInt a) (HInt k)"
    by (simp add: read_memory_def to_int_def)
qed

theorem read_memory_fill_witness:
  "read_memory \<lparr>data = [(0x10, 0xAB)], start_address = None\<rparr> (HInt 0x0F) (HInt 3)
      = Inr ''FFABFF''
   \<and> read_memory \<lparr>data = [(0x10, 0xAB)], start_address = None\<rparr> (HStr ''0x0F'') (HStr ''3'')
      = Inr ''FFABFF''
   \<and> format_X 2 0x0A = ''0A''"
proof -
  note th = read_memory_fill[of "\<lparr>data = [(0x10, 0xAB)], start_address = None\<rparr>" "0x0F" 3]
  have a: "read_memory \<lparr>data = [(0x10, 0xAB)], start_address = None\<rparr> (HInt 0x0F) (HInt 3)
      = Inr ''FFABFF''"
    by (subst th[THEN conjunct1]) code_simp
  have x: "to_int (HStr ''0x0F'') = Inr 0x0F \<and> to_int (HStr ''3'') = Inr 3" by code_simp
  from th[THEN conjunct2, THEN conjunct2, rule_format, OF x] a
  have b: "read_memory \<lparr>data = [(0x10, 0xAB)], start_address = None\<rparr> (HStr ''0x0F'') (HStr ''3'')
      = Inr ''FFABFF''" by simp
  have c: "format_X 2 0x0A = ''0A''"
    using th[THEN conjunct2, THEN conjunct1, rule_format, of "0x0A"]
    by (simp add: hexchar_def)
  from a b c show ?thesis by simp
qed

text \<open>A string that denotes no integer is no address: \<open>read_memory("zz", 1)\<close> raises the
  error of \<open>int("zz", 16)\<close> before any cell is read.\<close>

lemma read_memory_bad_address:
  "read_memory new_file (HStr ''zz'') (HInt 1) = Inl ValueError_int"
  by code_simp

section \<open>Addresses and the entry point\<close>

lemma load_lines_decoded:
  "decoded lines = Inr recs \<Longrightarrow> load_lines st lines = Inr (foldl record_step st recs)"
proof (induction lines arbitrary: st recs)
  case Nil
  then show ?case by simp
next
  case (Cons raw rest)
  show ?case
  proof (cases "py_strip raw = []")
    case True
    with Cons show ?thesis by simp
  next
    case False
    with Cons.prems obtain t a p where pl: "parse_line (py_strip raw) = Inr (t, a, p)"
      by (auto simp: Let_def split: sum.splits)
    show ?thesis
    proof (cases "t = 1")
      case True
      with Cons.prems False pl show ?thesis by (simp add: Let_def)
    next
      case nt: False
      with Cons.prems False pl obtain rs where rs: "decoded rest = Inr rs" "recs = (t, a, p) # rs"
        by (auto simp: Let_def split: sum.splits)
      from Cons.IH[OF rs(1)] False pl nt rs(2) show ?thesis
        by (simp add: Let_def record_step_def)
    qed
  qed
qed

lemma load_lines_decoded_error:
  "decoded lines = Inl e \<Longrightarrow> load_lines st lines = Inl e"
proof (induction lines arbitrary: st)
  case Nil
  then show ?case by simp
next
  case (Cons raw rest)
  then show ?case
    by (auto simp: Let_def split: sum.splits if_splits)
qed

lemma record_step_ext:
  "extended_address (record_step st (t, a, p)) =
     (if t = 4 then from_bytes_big p * 65536 else extended_address st)"
  by (simp add: record_step_def Let_def push_bit_eq_mult)

lemma record_step_first:
  "first_data_address (record_step st (t, a, p)) =
     (if t = 0 \<and> first_data_address st = None then Some (extended_address st OR a)
      else first_data_address st)"
  by (simp add: record_step_def Let_def)

lemma record_step_start:
  "start_address (self_file (record_step st (t, a, p))) =
     (if t = 5 then Some (from_bytes_big p) else start_address (self_file st))"
  by (simp add: record_step_def Let_def)

lemma record_step_data:
  "data (self_file (record_step st (t, a, p))) =
     (if t = 0 then store_bytes (data (self_file st)) (extended_address st OR a) p
      else data (self_file st))"
  by (simp add: record_step_def Let_def)

lemma fold_ext:
  "extended_address (foldl record_step st rs) =
     foldl (\<lambda>off (t, a, p). if t = 4 then from_bytes_big p * 65536 else off)
       (extended_address st) rs"
  by (induction rs arbitrary: st) (auto simp: record_step_ext)

lemma fold_first_keep:
  "first_data_address st = Some f \<Longrightarrow> first_data_address (foldl record_step st rs) = Some f"
  by (induction rs arbitrary: st) (auto simp: record_step_first)

lemma fold_no_data:
  "\<forall>r\<in>set rs. fst r \<noteq> 0 \<Longrightarrow>
     first_data_address (foldl record_step st rs) = first_data_address st
     \<and> data (self_file (foldl record_step st rs)) = data (self_file st)"
  by (induction rs arbitrary: st) (auto simp: record_step_first record_step_data)

lemma fold_no_start:
  "\<forall>r\<in>set rs. fst r \<noteq> 5 \<Longrightarrow>
     start_address (self_file (foldl record_step st rs)) = start_address (self_file st)"
  by (induction rs arbitrary: st) (auto simp: record_step_start)

lemma map_of_store_bytes:
  "map_of (store_bytes d a p) k =
     (if a \<le> k \<and> k < a + int (length p) then Some (p ! nat (k - a)) else map_of d k)"
proof (induction p arbitrary: d a)
  case Nil
  show ?case by auto
next
  case (Cons b bs)
  have "k - a = 0 \<or> nat (k - a) = Suc (nat (k - (a + 1)))" if "a \<le> k"
    using that by auto
  then show ?case
    by (auto simp: Cons update_conv')
qed

lemma store_bytes_keeps:
  "map_of d k \<noteq> None \<Longrightarrow> map_of (store_bytes d a p) k \<noteq> None"
  by (simp add: map_of_store_bytes)

lemma fold_keeps:
  "map_of (data (self_file st)) k \<noteq> None \<Longrightarrow>
     map_of (data (self_file (foldl record_step st rs))) k \<noteq> None"
proof (induction rs arbitrary: st)
  case Nil
  then show ?case by simp
next
  case (Cons r rs)
  obtain t a p where r: "r = (t, a, p)" by (cases r) auto
  have "map_of (data (self_file (record_step st r))) k \<noteq> None"
    using Cons.prems store_bytes_keeps[of "data (self_file st)" k]
    by (auto simp: r record_step_data)
  from Cons.IH[OF this] show ?case by simp
qed

lemma load_file_decoded:
  assumes "decoded lines = Inr recs"
  shows "load_file self lines =
     Inr (let st = foldl record_step
                 \<lparr>self_file = self, extended_address = 0, first_data_address = None\<rparr> recs
          in if start_address (self_file st) = None
             then (self_file st)\<lparr>start_address := first_data_address st\<rparr>
             else self_file st)"
  by (simp add: load_file_def load_lines_decoded[OF assms] Let_def)

lemma spec_extended_offset_fold:
  "extended_address (foldl record_step
      \<lparr>self_file = self, extended_address = 0, first_data_address = None\<rparr> pre)
     = spec_extended_offset pre"
  by (simp add: fold_ext spec_extended_offset_def)

text \<open>
  Claim C5. When the records that \<open>load_file\<close> decodes are \<open>pre\<close>, a Data record with
  address field \<open>a\<close> and payload \<open>p\<close>, and \<open>post\<close>, the load succeeds and every byte of
  the payload lands at the extended offset after \<open>pre\<close> (0 at first, replaced by each
  Extended Linear Address payload shifted left by 16 bits), combined by bitwise OR with
  \<open>a\<close>, plus the byte's index: those addresses are populated, and they hold the
  payload bytes when no later Data record follows. The witness is the example of the
  claim: payload \<open>0001\<close>, then address field \<open>0x0010\<close>, gives \<open>0x00010010\<close>.
\<close>

theorem load_data_address:
  assumes "decoded lines = Inr recs" and "recs = pre @ (0, a, p) # post"
  shows "\<exists>img. load_file self lines = Inr img
      \<and> (\<forall>i<length p. map_of (data img) ((spec_extended_offset pre OR a) + int i) \<noteq> None)
      \<and> ((\<forall>r\<in>set post. fst r \<noteq> 0) \<longrightarrow>
           (\<forall>i<length p. map_of (data img) ((spec_extended_offset pre OR a) + int i)
                           = Some (p ! i)))"
proof -
  define st0 where "st0 = \<lparr>self_file = self, extended_address = 0, first_data_address = None\<rparr>"
  define st1 where "st1 = foldl record_step st0 pre"
  define st2 where "st2 = record_step st1 (0, a, p)"
  define st3 where "st3 = foldl record_step st2 post"
  define base where "base = spec_extended_offset pre OR a"
  define img where "img = (if start_address (self_file st3) = None
             then (self_file st3)\<lparr>start_address := first_data_address st3\<rparr>
             else self_file st3)"
  have st3: "foldl record_step st0 recs = st3"
    by (simp add: assms(2) st3_def st2_def st1_def)
  have load: "load_file self lines = Inr img"
    using load_file_decoded[OF assms(1), of self] st3
    by (simp add: img_def st0_def Let_def)
  have dimg: "data img = data (self_file st3)"
    by (simp add: img_def)
  have ext1: "extended_address st1 = spec_extended_offset pre"
    unfolding st1_def st0_def by (rule spec_extended_offset_fold)
  have d2: "data (self_file st2) = store_bytes (data (self_file st1)) base p"
    by (simp add: st2_def record_step_data ext1 base_def)
  have in2: "map_of (data (self_file st2)) (base + int i) = Some (p ! i)" if "i < length p" for i
    using that by (simp add: d2 map_of_store_bytes)
  have a: "\<forall>i<length p. map_of (data img) (base + int i) \<noteq> None"
  proof (intro allI impI)
    fix i assume "i < length p"
    then have "map_of (data (self_file st2)) (base + int i) \<noteq> None"
      by (simp add: in2)
    then show "map_of (data img) (base + int i) \<noteq> None"
      unfolding dimg st3_def by (rule fold_keeps)
  qed
  have b: "(\<forall>r\<in>set post. fst r \<noteq> 0) \<longrightarrow>
           (\<forall>i<length p. map_of (data img) (base + int i) = Some (p ! i))"
  proof (intro allI impI)
    fix i assume nd: "\<forall>r\<in>set post. fst r \<noteq> 0" and i: "i < length p"
    have "data (self_file st3) = data (self_file st2)"
      unfolding st3_def using fold_no_data[OF nd] by simp
    then show "map_of (data img) (base + int i) = Some (p ! i)"
      using in2[OF i] by (simp add: dimg)
  qed
  from load a b show ?thesis
    unfolding base_def by blast
qed

theorem load_data_address_witness:
  "decoded ['':020000040001F9'' @ newline, '':01001000559A'' @ newline]
      = Inr [(4, 0, [0, 1]), (0, 0x0010, [0x55])]
   \<and> spec_extended_offset [(4, 0, [0, 1])] = 0x00010000
   \<and> (\<exists>img. load_file new_file ['':020000040001F9'' @ newline, '':01001000559A'' @ newline]
                 = Inr img
         \<and> map_of (data img) 0x00010010 = Some 0x55)"
proof -
  have d: "decoded ['':020000040001F9'' @ newline, '':01001000559A'' @ newline]
      = Inr [(4, 0, [0, 1]), (0, 0x0010, [0x55])]" by code_simp
  have s: "[(4, 0, [0, 1]), (0, 0x0010, [0x55])] = [(4, 0, [0, 1])] @ (0, 0x0010, [0x55]) # []"
    by simp
  have e: "spec_extended_offset [(4, 0, [0, 1])] = 0x00010000" by code_simp
  have o: "(0x00010000 :: int) OR 0x0010 = 0x00010010" by simp
  from load_data_address[OF d s, of new_file] obtain img where
    "load_file new_file ['':020000040001F9'' @ newline, '':01001000559A'' @ newline] = Inr img"
    "map_of (data img) ((spec_extended_offset [(4, 0, [0, 1])] OR 0x0010) + int 0) = Some 0x55"
    by auto
  with e o have "\<exists>img. load_file new_file ['':020000040001F9'' @ newline, '':01001000559A'' @ newline]
                 = Inr img \<and> map_of (data img) 0x00010010 = Some 0x55"
    by simp
  with d e show ?thesis by blast
qed

text \<open>
  Claim C4. Let \<open>recs\<close> be the records \<open>load_file\<close> decodes from the lines, in file
  order up to the End-Of-File record. The load of a new image succeeds, and: when
  \<open>recs\<close> holds no Start Linear Address record (type 5) and its first Data record has
  address field \<open>a\<close>, after the records \<open>pre\<close>, the entry point is the absolute address of
  that record, the extended offset after \<open>pre\<close> OR \<open>a\<close>, whatever other addresses are
  populated; when \<open>recs\<close> holds a Start Linear Address record, the entry point is the
  payload of the last one, read big-endian; with neither kind of record there is no
  entry point.
\<close>

theorem load_entry_point:
  assumes "decoded lines = Inr recs"
  shows "\<exists>img. load_file new_file lines = Inr img
      \<and> (recs = pre @ (0, a, p) # post \<and> (\<forall>r\<in>set pre. fst r \<noteq> 0)
              \<and> (\<forall>r\<in>set recs. fst r \<noteq> 5)
            \<longrightarrow> start_address img = Some (spec_extended_offset pre OR a))
      \<and> (recs = pre' @ (5, a', p') # post' \<and> (\<forall>r\<in>set post'. fst r \<noteq> 5)
            \<longrightarrow> start_address img = Some (from_bytes_big p'))
      \<and> ((\<forall>r\<in>set recs. fst r \<noteq> 0 \<and> fst r \<noteq> 5) \<longrightarrow> start_address img = None)"
proof -
  define st0 where
    "st0 = \<lparr>self_file = new_file, extended_address = 0, first_data_address = None\<rparr>"
  define st where "st = foldl record_step st0 recs"
  define img where "img = (if start_address (self_file st) = None
             then (self_file st)\<lparr>start_address := first_data_address st\<rparr>
             else self_file st)"
  have load: "load_file new_file lines = Inr img"
    using load_file_decoded[OF assms, of new_file]
    by (simp add: img_def st_def st0_def Let_def)
  have start: "start_address img =
      (if start_address (self_file st) = None then first_data_address st
       else start_address (self_file st))"
    by (simp add: img_def)
  have s0: "start_address (self_file st0) = None" "first_data_address st0 = None"
    by (simp_all add: st0_def new_file_def)
  have c1: "start_address img = Some (spec_extended_offset pre OR a)"
    if h: "recs = pre @ (0, a, p) # post \<and> (\<forall>r\<in>set pre. fst r \<noteq> 0)
              \<and> (\<forall>r\<in>set recs. fst r \<noteq> 5)" for pre a p post
  proof -
    define st1 where "st1 = foldl record_step st0 pre"
    have ext1: "extended_address st1 = spec_extended_offset pre"
      unfolding st1_def st0_def by (rule spec_extended_offset_fold)
    have f1: "first_data_address st1 = None"
      unfolding st1_def using fold_no_data[of pre st0] h s0 by simp
    have f2: "first_data_address (record_step st1 (0, a, p)) = Some (spec_extended_offset pre OR a)"
      by (simp add: record_step_first f1 ext1)
    have "st = foldl record_step (record_step st1 (0, a, p)) post"
      using h by (simp add: st_def st1_def)
    then have f: "first_data_address st = Some (spec_extended_offset pre OR a)"
      using fold_first_keep[OF f2] by simp
    have "start_address (self_file st) = None"
      unfolding st_def using fold_no_start[of recs st0] h s0 by simp
    with f show ?thesis by (simp add: start)
  qed
  have c2: "start_address img = Some (from_bytes_big p)"
    if h: "recs = pre @ (5, a, p) # post \<and> (\<forall>r\<in>set post. fst r \<noteq> 5)" for pre a p post
  proof -
    define st1 where "st1 = foldl record_step st0 pre"
    have "st = foldl record_step (record_step st1 (5, a, p)) post"
      using h by (simp add: st_def st1_def)
    then have "start_address (self_file st) = Some (from_bytes_big p)"
      using fold_no_start[of post "record_step st1 (5, a, p)"] h
      by (simp add: record_step_start)
    then show ?thesis by (simp add: start)
  qed
  have c3: "start_address img = None" if h: "\<forall>r\<in>set recs. fst r \<noteq> 0 \<and> fst r \<noteq> 5"
  proof -
    have "first_data_address st = None"
      unfolding st_def using fold_no_data[of recs st0] h s0 by simp
    moreover have "start_address (self_file st) = None"
      unfolding st_def using fold_no_start[of recs st0] h s0 by simp
    ultimately show ?thesis by (simp add: start)
  qed
  from load c1[of pre a p post] c2[of pre' a' p' post'] c3 show ?thesis by blast
qed

theorem load_entry_point_witness:
  "decoded ['':01002000558A'' @ newline, '':0100000055AA'' @ newline, '':00000001FF'' @ newline]
      = Inr [(0, 0x20, [0x55]), (0, 0, [0x55])]
   \<and> load_file new_file
          ['':01002000558A'' @ newline, '':0100000055AA'' @ newline, '':00000001FF'' @ newline]
      = Inr \<lparr>data = [(0x20, 0x55), (0, 0x55)], start_address = Some 0x20\<rparr>
   \<and> decoded ['':0100000055AA'' @ newline, '':0400000500001234B1'' @ newline]
      = Inr [(0, 0, [0x55]), (5, 0, [0, 0, 0x12, 0x34])]
   \<and> load_file new_file ['':0100000055AA'' @ newline, '':0400000500001234B1'' @ newline]
      = Inr \<lparr>data = [(0, 0x55)], start_address = Some 0x1234\<rparr>"
proof -
  let ?L1 = "['':01002000558A'' @ newline, '':0100000055AA'' @ newline,
      '':00000001FF'' @ newline]"
  let ?L2 = "['':0100000055AA'' @ newline, '':0400000500001234B1'' @ newline]"
  have d1: "decoded ?L1 = Inr [(0, 0x20, [0x55]), (0, 0, [0x55])]" by code_simp
  have k1: "(case load_file new_file ?L1 of Inl e \<Rightarrow> [] | Inr f \<Rightarrow> data f)
      = [(0x20, 0x55), (0, 0x55)]"
    by code_simp
  have e1: "spec_extended_offset [] OR 0x20 = 0x20" by code_simp
  from load_entry_point[OF d1, of "[]" "0x20" "[0x55]" "[(0, 0, [0x55])]" "[]" 0 "[]" "[]"] e1
  obtain img1 where i1: "load_file new_file ?L1 = Inr img1"
    and s1: "start_address img1 = Some 0x20"
    by auto
  from k1 i1 have "data img1 = [(0x20, 0x55), (0, 0x55)]" by simp
  with s1 have "img1 = \<lparr>data = [(0x20, 0x55), (0, 0x55)], start_address = Some 0x20\<rparr>"
    by (cases img1) simp
  with i1 have l1: "load_file new_file ?L1
      = Inr \<lparr>data = [(0x20, 0x55), (0, 0x55)], start_address = Some 0x20\<rparr>"
    by simp
  have d2: "decoded ?L2 = Inr [(0, 0, [0x55]), (5, 0, [0, 0, 0x12, 0x34])]" by code_simp
  have k2: "(case load_file new_file ?L2 of Inl e \<Rightarrow> [] | Inr f \<Rightarrow> data f) = [(0, 0x55)]"
    by code_simp
  have e2: "from_bytes_big [0, 0, 0x12, 0x34] = 0x1234" by code_simp
  from load_entry_point[OF d2, of "[]" 0 "[]" "[]" "[(0, 0, [0x55])]" 0 "[0, 0, 0x12, 0x34]" "[]"] e2
  obtain img2 where i2: "load_file new_file ?L2 = Inr img2"
    and s2: "start_address img2 = Some 0x1234"
    by auto
  from k2 i2 have "data img2 = [(0, 0x55)]" by simp
  with s2 have "img2 = \<lparr>data = [(0, 0x55)], start_address = Some 0x1234\<rparr>"
    by (cases img2) simp
  with i2 have l2: "load_file new_file ?L2
      = Inr \<lparr>data = [(0, 0x55)], start_address = Some 0x1234\<rparr>"
    by simp
  from d1 l1 d2 l2 show ?thesis by simp
qed

section \<open>Serialising and loading again\<close>

lemma hexchar_0: "hexchar 0 = CHR ''0''"
  by (simp add: hexchar_def)

lemma replicate_small:
  "replicate 3 x = [x, x, x]" "replicate 2 x = [x, x]" "replicate (Suc 0) x = [x]"
  by (simp_all add: numeral_3_eq_3 numeral_2_eq_2)

lemma format_X_4_word:
  assumes "0 \<le> v" and "v < 65536"
  shows "format_X 4 v =
     [hexchar (nat v div 256 div 16), hexchar (nat v div 256 mod 16),
      hexchar (nat v div 16 mod 16), hexchar (nat v mod 16)]"
proof -
  define n where "n = nat v"
  have n: "n < 65536" using assms by (simp add: n_def)
  have f: "format_X 4 v = replicate (4 - length (hex_upper n)) CHR ''0'' @ hex_upper n"
    using assms by (simp add: format_X_def Let_def n_def)
  consider "n < 16" | "16 \<le> n" "n < 256" | "256 \<le> n" "n < 4096" | "4096 \<le> n"
    by linarith
  then have "replicate (4 - length (hex_upper n)) CHR ''0'' @ hex_upper n
      = [hexchar (n div 256 div 16), hexchar (n div 256 mod 16),
         hexchar (n div 16 mod 16), hexchar (n mod 16)]"
  proof cases
    case 1
    then show ?thesis
      by (simp add: hex_upper_small hexchar_0 replicate_small)
  next
    case 2
    then have "n div 16 < 16" by simp
    with 2 show ?thesis
      by (simp add: hex_upper_two hexchar_0 replicate_small)
  next
    case 3
    then have "n div 256 < 16" by simp
    with 3 show ?thesis
      by (simp add: hex_upper_step2 hex_upper_small hexchar_0 replicate_small)
  next
    case 4
    then have "16 \<le> n div 256" "n div 256 < 256" using n by simp_all
    with 4 show ?thesis
      by (simp add: hex_upper_step2 hex_upper_two)
  qed
  then show ?thesis by (simp add: f n_def)
qed

lemma not_space_hexchar: "d < 16 \<Longrightarrow> \<not> Py_ISSPACE (hexchar d)"
  by (simp add: is_digit16_props is_digit16_hexchar)

lemma not_pyspace_digit: "is_digit16 c \<Longrightarrow> \<not> py_isspace c"
  by (auto simp: is_digit16_def digit_value_def py_isspace_def Let_def split: if_splits)

lemma fromhex_pair:
  "a < 16 \<Longrightarrow> b < 16 \<Longrightarrow>
     fromhex (hexchar a # hexchar b # r) =
       (case fromhex r of Inl e \<Rightarrow> Inl e | Inr bs \<Rightarrow> Inr (int (a * 16 + b) # bs))"
  by (simp add: not_space_hexchar is_digit16_hexchar digit_value_hexchar split: sum.splits)

lemma byte_digits: "0 \<le> v \<Longrightarrow> v < 256 \<Longrightarrow> int (nat v div 16 * 16 + nat v mod 16) = v"
  by simp

lemma fromhex_format:
  "\<forall>v\<in>set chunk. 0 \<le> v \<and> v < 256 \<Longrightarrow> fromhex (concat (map (format_X 2) chunk)) = Inr chunk"
proof (induction chunk)
  case Nil
  show ?case by simp
next
  case (Cons v vs)
  then have v: "0 \<le> v" "v < 256" by auto
  then have d: "nat v div 16 < 16" "nat v mod 16 < 16" by auto
  from Cons show ?case
    by (simp add: format_X_2_byte[OF v] fromhex_pair[OF d] byte_digits[OF v]
        del: of_nat_add of_nat_mult fromhex.simps)
qed

lemma length_concat_format:
  "\<forall>v\<in>set chunk. 0 \<le> v \<and> v < 256 \<Longrightarrow> length (concat (map (format_X 2) chunk)) = 2 * length chunk"
  by (induction chunk) (auto simp: format_X_2_byte)

lemma py_int16_format_2:
  assumes "0 \<le> v" and "v < 256"
  shows "py_int16 (format_X 2 v) = Inr v"
proof -
  have d: "nat v div 16 < 16" "nat v mod 16 < 16" using assms by auto
  show ?thesis
    using py_int16_hex2[OF d] byte_digits[OF assms]
    by (simp add: format_X_2_byte[OF assms] del: of_nat_add of_nat_mult)
qed

lemma digits_value_4:
  "digits_value [a, b, c, d] =
     int (((digit_value a * 16 + digit_value b) * 16 + digit_value c) * 16 + digit_value d)"
  by (simp add: digits_value_def)

lemma nat_hex4:
  "((n div 256 div 16 * 16 + n div 256 mod 16) * 16 + n div 16 mod 16) * 16 + n mod 16 = (n::nat)"
proof -
  have "n div 256 div 16 * 16 + n div 256 mod 16 = n div 256" by simp
  moreover have "n div 256 * 16 + n div 16 mod 16 = n div 16"
    using div_mult_mod_eq[of "n div 16" 16] by (simp add: div_mult2_eq[symmetric])
  ultimately show ?thesis by simp
qed

lemma py_int16_format_4:
  assumes "0 \<le> v" and "v < 65536"
  shows "py_int16 (format_X 4 v) = Inr v"
proof -
  define n where "n = nat v"
  have n: "n < 65536" "int n = v" using assms by (simp_all add: n_def)
  have d: "n div 256 div 16 < 16" "n div 256 mod 16 < 16" "n div 16 mod 16 < 16" "n mod 16 < 16"
    using n by auto
  have "digits_value [hexchar (n div 256 div 16), hexchar (n div 256 mod 16),
      hexchar (n div 16 mod 16), hexchar (n mod 16)]
      = int (((n div 256 div 16 * 16 + n div 256 mod 16) * 16 + n div 16 mod 16) * 16 + n mod 16)"
    using d by (simp add: digits_value_4 digit_value_hexchar del: of_nat_add of_nat_mult)
  then have dv: "digits_value [hexchar (n div 256 div 16), hexchar (n div 256 mod 16),
      hexchar (n div 16 mod 16), hexchar (n mod 16)] = v"
    by (simp only: nat_hex4 n(2))
  have "py_int16 [hexchar (n div 256 div 16), hexchar (n div 256 mod 16),
      hexchar (n div 16 mod 16), hexchar (n mod 16)] = Inr v"
    using d by (subst py_int16_hex) (simp_all add: is_digit16_hexchar dv)
  then show ?thesis
    by (simp only: format_X_4_word[OF assms] n_def[symmetric])
qed

lemma fromhex_format_4:
  assumes "0 \<le> v" and "v < 65536"
  shows "fromhex (format_X 4 v) = Inr [v div 256, v mod 256]"
proof -
  define n where "n = nat v"
  have n: "n < 65536" "int n = v" using assms by (simp_all add: n_def)
  have d: "n div 256 div 16 < 16" "n div 256 mod 16 < 16" "n div 16 mod 16 < 16" "n mod 16 < 16"
    using n by auto
  have a: "n div 256 div 16 * 16 + n div 256 mod 16 = n div 256" by simp
  have b: "n div 16 mod 16 * 16 + n mod 16 = n mod 256"
    using mod_mult2_eq[of n 16 16] by simp
  have "fromhex [hexchar (n div 256 div 16), hexchar (n div 256 mod 16),
      hexchar (n div 16 mod 16), hexchar (n mod 16)] = Inr [int (n div 256), int (n mod 256)]"
    by (simp add: fromhex_pair d a b del: of_nat_add of_nat_mult fromhex.simps(3))
  moreover have "int (n div 256) = v div 256" "int (n mod 256) = v mod 256"
    using n(2) by (simp_all add: zdiv_int zmod_int)
  ultimately show ?thesis
    by (simp only: format_X_4_word[OF assms] n_def[symmetric])
qed

lemma py_slice_mid:
  "py_slice (xs @ ys @ zs) (int (length xs)) (int (length xs) + int (length ys)) = ys"
  by (simp add: py_slice_nonneg)

lemma py_slice_first:
  "py_slice (ys @ zs) 0 (int (length ys)) = ys"
  using py_slice_mid[of "[]" ys zs] by simp

lemma parse_fields_wellformed:
  assumes B: "length B = 2" "py_int16 B = Inr bc"
    and A: "length A = 4" "py_int16 A = Inr addr"
    and T: "length T = 2" "py_int16 T = Inr t"
    and D: "int (length D) = 2 * bc" "fromhex D = Inr payload"
    and C: "length C = 2" "py_int16 C = Inr cs"
  shows "parse_fields (CHR '':'' # B @ A @ T @ D @ C) = Inr (bc, addr, t, payload, cs)"
proof -
  let ?l = "B @ A @ T @ D @ C"
  have s1: "py_slice ?l 0 2 = B"
    using py_slice_first[of B "A @ T @ D @ C"] B(1) by simp
  have s2: "py_slice ?l 2 6 = A"
    using py_slice_mid[of B A "T @ D @ C"] B(1) A(1) by simp
  have s3: "py_slice ?l 6 8 = T"
    using py_slice_mid[of "B @ A" T "D @ C"] B(1) A(1) T(1) by simp
  have s4: "py_slice ?l 8 (8 + bc * 2) = D"
    using py_slice_mid[of "B @ A @ T" D C] B(1) A(1) T(1) D(1) by (simp add: mult.commute)
  have s5: "py_slice ?l (8 + bc * 2) (10 + bc * 2) = C"
    using py_slice_mid[of "B @ A @ T @ D" C "[]"] B(1) A(1) T(1) D(1) C(1)
    by (simp add: mult.commute add.commute)
  show ?thesis
    by (simp add: parse_fields_def s1 s2 s3 s4 s5 B(2) A(2) T(2) D(2) C(2))
qed

lemma py_strip_line:
  assumes "s \<noteq> []" and "\<not> py_isspace (hd s)" and "\<not> py_isspace (last s)"
  shows "py_strip (s @ newline) = s"
proof -
  have nl: "py_isspace (CHR 0x0A)" by (simp add: py_isspace_def)
  have a: "dropWhile py_isspace (s @ newline) = s @ newline"
    using assms(1,2) by (cases s) auto
  have b: "dropWhile py_isspace (rev (s @ newline)) = dropWhile py_isspace (rev s)"
    using nl by (simp add: newline_def)
  have "dropWhile py_isspace (rev s) = rev s"
    using assms(1,3) by (cases "rev s") (auto simp: last_rev[symmetric] hd_rev)
  with b have "dropWhile py_isspace (rev (s @ newline)) = rev s"
    by simp
  then show ?thesis
    by (simp add: py_strip_def a)
qed

lemma length_format_2: "0 \<le> v \<Longrightarrow> v < 256 \<Longrightarrow> length (format_X 2 v) = 2"
  by (simp add: format_X_2_byte)

lemma length_format_4: "0 \<le> v \<Longrightarrow> v < 65536 \<Longrightarrow> length (format_X 4 v) = 4"
  by (simp add: format_X_4_word)

lemma last_format_2: "0 \<le> v \<Longrightarrow> v < 256 \<Longrightarrow> \<not> py_isspace (last (format_X 2 v))"
  by (simp add: format_X_2_byte not_pyspace_digit is_digit16_hexchar)

lemma and_255_range: "0 \<le> (x::int) AND 255" "(x::int) AND 255 < 256"
  by (simp_all add: and_255_mod)

lemma and_65535_range: "0 \<le> (x::int) AND 65535" "(x::int) AND 65535 < 65536"
  by (simp_all add: and_65535_mod)

lemma mod_65536_div_256: "(x::int) mod 65536 div 256 = x div 256 mod 256"
proof -
  have "x mod (256 * 256) = 256 * (x div 256 mod 256) + x mod 256"
    by (rule zmod_zmult2_eq) simp
  then have "x mod 65536 div 256 = (256 * (x div 256 mod 256) + x mod 256) div 256"
    by simp
  also have "\<dots> = x div 256 mod 256"
    by simp
  finally show ?thesis .
qed

lemma mod_65536_mod_256: "(x::int) mod 65536 mod 256 = x mod 256"
  by (rule mod_mod_cancel) simp

lemma spec_checksum_low16:
  "spec_checksum bc (base AND 0xFFFF) t p = spec_checksum bc base t p"
proof -
  have "(base mod 65536 div 256) mod 256 = (base div 256) mod 256"
    by (simp add: mod_65536_div_256)
  then show ?thesis
    by (simp only: spec_checksum_def and_65535_mod mod_65536_mod_256)
qed

lemma colon_not_space: "\<not> py_isspace CHR '':''"
  by (simp add: py_isspace_def)

lemma parse_data_line:
  assumes len: "length chunk < 256" and bytes: "\<forall>v\<in>set chunk. 0 \<le> v \<and> v < 256"
  shows "py_strip (data_line base chunk) \<noteq> []
       \<and> parse_line (py_strip (data_line base chunk)) = Inr (0, base AND 0xFFFF, chunk)"
proof -
  define cs where
    "cs = (- (int (length chunk) + drop_bit 8 base + (base AND 0xFF) + 0 + sum_list chunk)) AND 0xFF"
  define B where "B = format_X 2 (int (length chunk))"
  define A where "A = format_X 4 (base AND 0xFFFF)"
  define D where "D = concat (map (format_X 2) chunk)"
  define C where "C = format_X 2 cs"
  define body where "body = CHR '':'' # B @ A @ format_X 2 0 @ D @ C"
  have z: "format_X 2 0 = ''00''"
    by (simp add: format_X_2_byte hexchar_def)
  have dl: "data_line base chunk = body @ newline"
    by (simp add: data_line_def Let_def body_def B_def A_def D_def C_def cs_def z)
  have csr: "0 \<le> cs" "cs < 256"
    by (simp_all add: cs_def and_255_range)
  have "C \<noteq> []" using length_format_2[OF csr] by (auto simp: C_def)
  then have "last body = last C" by (simp add: body_def)
  then have "\<not> py_isspace (last body)"
    using last_format_2[OF csr] by (simp add: C_def)
  then have strip: "py_strip (data_line base chunk) = body"
    unfolding dl by (intro py_strip_line) (simp_all add: body_def colon_not_space)
  have lenr: "0 \<le> int (length chunk)" "int (length chunk) < 256"
    using len by simp_all
  have pf: "parse_fields body = Inr (int (length chunk), base AND 0xFFFF, 0, chunk, cs)"
    unfolding body_def
  proof (rule parse_fields_wellformed)
    show "length B = 2" "py_int16 B = Inr (int (length chunk))"
      using lenr by (simp_all add: B_def length_format_2 py_int16_format_2)
    show "length A = 4" "py_int16 A = Inr (base AND 0xFFFF)"
      by (simp_all add: A_def length_format_4 py_int16_format_4 and_65535_range)
    show "length (format_X 2 0) = 2" "py_int16 (format_X 2 0) = Inr 0"
      by (simp_all add: length_format_2 py_int16_format_2)
    show "int (length D) = 2 * int (length chunk)" "fromhex D = Inr chunk"
      using bytes by (simp_all add: D_def length_concat_format fromhex_format)
    show "length C = 2" "py_int16 C = Inr cs"
      using csr by (simp_all add: C_def length_format_2 py_int16_format_2)
  qed
  have "cs = spec_checksum (int (length chunk)) base 0 chunk"
    unfolding cs_def by (rule computed_checksum_spec)
  then have "spec_checksum (int (length chunk)) (base AND 0xFFFF) 0 chunk = cs"
    by (simp add: spec_checksum_low16)
  with parse_line_of_fields[OF pf] have "parse_line body = Inr (0, base AND 0xFFFF, chunk)"
    by simp
  with strip show ?thesis by (simp add: body_def)
qed

lemma parse_ext_line:
  defines "h \<equiv> \<lambda>la::int. la AND 0xFFFF"
  shows "py_strip (ext_line la) \<noteq> []
       \<and> parse_line (py_strip (ext_line la)) = Inr (4, 0, [h la div 256, h la mod 256])"
proof -
  define cs where "cs = (- 2 - 4 - drop_bit 8 (h la) - (h la AND 0xFF)) AND 0xFF"
  define D where "D = format_X 4 (h la)"
  define C where "C = format_X 2 cs"
  define body where "body = CHR '':'' # format_X 2 2 @ format_X 4 0 @ format_X 2 4 @ D @ C"
  have z: "format_X 2 2 = ''02''" "format_X 4 0 = ''0000''" "format_X 2 4 = ''04''"
    by (simp_all add: format_X_2_byte format_X_4_word hexchar_def)
  have el: "ext_line la = body @ newline"
    by (simp add: ext_line_def Let_def body_def D_def C_def cs_def z h_def)
  have hr: "0 \<le> h la" "h la < 65536"
    by (simp_all add: h_def and_65535_range)
  have csr: "0 \<le> cs" "cs < 256"
    by (simp_all add: cs_def and_255_range)
  have "C \<noteq> []" using length_format_2[OF csr] by (auto simp: C_def)
  then have "last body = last C" by (simp add: body_def)
  then have "\<not> py_isspace (last body)"
    using last_format_2[OF csr] by (simp add: C_def)
  then have strip: "py_strip (ext_line la) = body"
    unfolding el by (intro py_strip_line) (simp_all add: body_def colon_not_space)
  have pf: "parse_fields body = Inr (2, 0, 4, [h la div 256, h la mod 256], cs)"
    unfolding body_def
  proof (rule parse_fields_wellformed)
    show "length (format_X 2 2) = 2" "py_int16 (format_X 2 2) = Inr 2"
      by (simp_all add: length_format_2 py_int16_format_2)
    show "length (format_X 4 0) = 4" "py_int16 (format_X 4 0) = Inr 0"
      by (simp_all add: length_format_4 py_int16_format_4)
    show "length (format_X 2 4) = 2" "py_int16 (format_X 2 4) = Inr 4"
      by (simp_all add: length_format_2 py_int16_format_2)
    show "int (length D) = 2 * 2" "fromhex D = Inr [h la div 256, h la mod 256]"
      using hr by (simp_all add: D_def length_format_4 fromhex_format_4)
    show "length C = 2" "py_int16 C = Inr cs"
      using csr by (simp_all add: C_def length_format_2 py_int16_format_2)
  qed
  have "spec_checksum 2 0 4 [h la div 256, h la mod 256] = cs"
  proof -
    have "h la mod 256 mod 256 = h la mod 256" by simp
    have "(- (2 + 0 div 256 mod 256 + 0 mod 256 + 4 + (h la div 256 + (h la mod 256 + 0))))
        = - 2 - 4 - h la div 256 - h la mod 256"
      by simp
    then show ?thesis
      by (simp add: spec_checksum_def cs_def and_255_mod drop_bit_8_div algebra_simps)
  qed
  with parse_line_of_fields[OF pf] have "parse_line body = Inr (4, 0, [h la div 256, h la mod 256])"
    by simp
  with strip show ?thesis by (simp add: body_def)
qed

lemma py_range_0_32: "py_range 0 32 1 = map int [0..<32]"
  by (simp add: py_range_def)

lemma from_bytes_big_2: "from_bytes_big [a, b] = a * 256 + b"
  by (simp add: from_bytes_big_def)

lemma from_bytes_big_halves: "from_bytes_big [h div 256, h mod 256] = h"
  by (simp add: from_bytes_big_2)

lemma high_of_base:
  assumes "0 \<le> base" and "base < 2 ^ 32"
  shows "drop_bit 16 base AND 0xFFFF = drop_bit 16 (base::int)"
proof -
  have "0 \<le> base div 65536" "base div 65536 < 65536"
    using assms by simp_all
  then show ?thesis
    by (simp add: and_65535_mod drop_bit_16_div)
qed

lemma join_base: "push_bit 16 (drop_bit 16 base) OR (base AND 0xFFFF) = (base::int)"
proof -
  have "push_bit 16 (drop_bit 16 base) OR take_bit 16 base = base"
    by (rule bit_eqI) (auto simp: bit_simps)
  then show ?thesis
    by (simp add: take_bit_eq_mask mask_eq_exp_minus_1)
qed

lemma chunk_of_props:
  "length (chunk_of d base) = 32"
  "j < 32 \<Longrightarrow> chunk_of d base ! j = dict_get d (base + int j) 0xFF"
  by (simp_all add: chunk_of_def py_range_0_32)

lemma chunk_of_bytes:
  "\<forall>k. 0 \<le> dict_get d k 255 \<and> dict_get d k 255 < 256 \<Longrightarrow>
     \<forall>v\<in>set (chunk_of d base). 0 \<le> v \<and> v < 256"
  by (auto simp: chunk_of_def)

lemma save_chunks_Cons:
  "save_chunks d cur (base # bases) =
     (if Some (drop_bit 16 base) \<noteq> cur then [ext_line (drop_bit 16 base)] else [])
     @ data_line base (chunk_of d base) # save_chunks d (Some (drop_bit 16 base)) bases"
  by (auto simp: Let_def chunk_of_def)

lemma load_data_line:
  assumes bytes: "\<forall>k. 0 \<le> dict_get d k 255 \<and> dict_get d k 255 < 256"
    and ext: "extended_address st = push_bit 16 (drop_bit 16 base)"
  shows "load_lines st (data_line base (chunk_of d base) # rest) =
     load_lines
       (st\<lparr>self_file := (self_file st)\<lparr>data :=
              store_bytes (data (self_file st)) base (chunk_of d base)\<rparr>,
           first_data_address :=
             (if first_data_address st = None then Some base else first_data_address st)\<rparr>)
       rest"
proof -
  have "length (chunk_of d base) < 256"
    by (simp add: chunk_of_props)
  from parse_data_line[OF this chunk_of_bytes[OF bytes], of base]
  show ?thesis
    by (simp add: Let_def ext join_base)
qed

lemma load_ext_line:
  assumes "0 \<le> base" and "base < 2 ^ 32"
  shows "load_lines st (ext_line (drop_bit 16 base) # rest) =
     load_lines (st\<lparr>extended_address := push_bit 16 (drop_bit 16 base)\<rparr>) rest"
  using parse_ext_line[of "drop_bit 16 base"]
  by (simp add: Let_def from_bytes_big_halves high_of_base[OF assms])

lemma map_of_store_chunk:
  "map_of (store_bytes d0 base (chunk_of d base)) k =
     (if base \<le> k \<and> k < base + 32 then Some (dict_get d k 255) else map_of d0 k)"
proof (cases "base \<le> k \<and> k < base + 32")
  case True
  then have "nat (k - base) < 32" "base + int (nat (k - base)) = k" by auto
  with True show ?thesis
    by (simp add: map_of_store_bytes chunk_of_props)
next
  case False
  then show ?thesis
    by (auto simp: map_of_store_bytes chunk_of_props)
qed

lemma load_one_chunk:
  assumes bytes: "\<forall>k. 0 \<le> dict_get d k 255 \<and> dict_get d k 255 < 256"
    and base: "0 \<le> base" "base < 2 ^ 32"
    and cur: "\<forall>c. cur = Some c \<longrightarrow> extended_address st = push_bit 16 c"
  shows "load_lines st (save_chunks d cur (base # bases) @ rest) =
     load_lines
       (st\<lparr>extended_address := push_bit 16 (drop_bit 16 base),
           self_file := (self_file st)\<lparr>data :=
              store_bytes (data (self_file st)) base (chunk_of d base)\<rparr>,
           first_data_address :=
             (if first_data_address st = None then Some base else first_data_address st)\<rparr>)
       (save_chunks d (Some (drop_bit 16 base)) bases @ rest)"
proof (cases "Some (drop_bit 16 base) \<noteq> cur")
  case True
  have "load_lines st (save_chunks d cur (base # bases) @ rest) =
      load_lines (st\<lparr>extended_address := push_bit 16 (drop_bit 16 base)\<rparr>)
        (data_line base (chunk_of d base) # save_chunks d (Some (drop_bit 16 base)) bases @ rest)"
    using True
    by (simp add: save_chunks_Cons load_ext_line[OF base] del: save_chunks.simps load_lines.simps)
  also have "\<dots> = load_lines
       (st\<lparr>extended_address := push_bit 16 (drop_bit 16 base),
           self_file := (self_file st)\<lparr>data :=
              store_bytes (data (self_file st)) base (chunk_of d base)\<rparr>,
           first_data_address :=
             (if first_data_address st = None then Some base else first_data_address st)\<rparr>)
       (save_chunks d (Some (drop_bit 16 base)) bases @ rest)"
    by (subst load_data_line[OF bytes]) simp_all
  finally show ?thesis .
next
  case False
  then have e: "extended_address st = push_bit 16 (drop_bit 16 base)"
    using cur by auto
  have "st\<lparr>extended_address := push_bit 16 (drop_bit 16 base)\<rparr> = st"
    using e by simp
  then have s: "st\<lparr>extended_address := push_bit 16 (drop_bit 16 base),
           self_file := (self_file st)\<lparr>data :=
              store_bytes (data (self_file st)) base (chunk_of d base)\<rparr>,
           first_data_address :=
             (if first_data_address st = None then Some base else first_data_address st)\<rparr>
      = st\<lparr>self_file := (self_file st)\<lparr>data :=
              store_bytes (data (self_file st)) base (chunk_of d base)\<rparr>,
           first_data_address :=
             (if first_data_address st = None then Some base else first_data_address st)\<rparr>"
    by simp
  show ?thesis
    unfolding s using False
    by (simp add: save_chunks_Cons load_data_line[OF bytes e]
        del: save_chunks.simps load_lines.simps)
qed

lemma load_save_chunks:
  assumes bytes: "\<forall>k. 0 \<le> dict_get d k 255 \<and> dict_get d k 255 < 256"
  shows "(\<forall>b\<in>set bases. 0 \<le> b \<and> b < 2 ^ 32) \<Longrightarrow>
     (\<forall>c. cur = Some c \<longrightarrow> extended_address st = push_bit 16 c) \<Longrightarrow>
     \<exists>st'. load_lines st (save_chunks d cur bases @ rest) = load_lines st' rest
       \<and> (\<forall>k. map_of (data (self_file st')) k =
              (if \<exists>b\<in>set bases. b \<le> k \<and> k < b + 32 then Some (dict_get d k 255)
               else map_of (data (self_file st)) k))
       \<and> first_data_address st' =
            (if first_data_address st = None \<and> bases \<noteq> [] then Some (hd bases)
             else first_data_address st)
       \<and> start_address (self_file st') = start_address (self_file st)"
proof (induction bases arbitrary: st cur)
  case Nil
  show ?case by (intro exI[of _ st]) simp
next
  case (Cons base bases)
  define st1 where "st1 = st\<lparr>extended_address := push_bit 16 (drop_bit 16 base),
           self_file := (self_file st)\<lparr>data :=
              store_bytes (data (self_file st)) base (chunk_of d base)\<rparr>,
           first_data_address :=
             (if first_data_address st = None then Some base else first_data_address st)\<rparr>"
  have base: "0 \<le> base" "base < 2 ^ 32" using Cons.prems(1) by auto
  have step: "load_lines st (save_chunks d cur (base # bases) @ rest) =
      load_lines st1 (save_chunks d (Some (drop_bit 16 base)) bases @ rest)"
    unfolding st1_def by (rule load_one_chunk[OF bytes base Cons.prems(2)])
  have "\<forall>b\<in>set bases. 0 \<le> b \<and> b < 2 ^ 32" using Cons.prems(1) by auto
  moreover have "\<forall>c. Some (drop_bit 16 base) = Some c \<longrightarrow> extended_address st1 = push_bit 16 c"
    by (simp add: st1_def)
  ultimately obtain st' where
    l: "load_lines st1 (save_chunks d (Some (drop_bit 16 base)) bases @ rest) = load_lines st' rest"
    and m: "\<forall>k. map_of (data (self_file st')) k =
              (if \<exists>b\<in>set bases. b \<le> k \<and> k < b + 32 then Some (dict_get d k 255)
               else map_of (data (self_file st1)) k)"
    and f: "first_data_address st' =
            (if first_data_address st1 = None \<and> bases \<noteq> [] then Some (hd bases)
             else first_data_address st1)"
    and s: "start_address (self_file st') = start_address (self_file st1)"
    using Cons.IH[of "Some (drop_bit 16 base)" st1] by blast
  have d1: "map_of (data (self_file st1)) k =
     (if base \<le> k \<and> k < base + 32 then Some (dict_get d k 255)
      else map_of (data (self_file st)) k)" for k
    by (simp add: st1_def map_of_store_chunk)
  have f1: "first_data_address st1 \<noteq> None"
    "first_data_address st1 = (if first_data_address st = None then Some base
        else first_data_address st)"
    by (auto simp: st1_def)
  have s1: "start_address (self_file st1) = start_address (self_file st)"
    by (simp add: st1_def)
  show ?case
  proof (intro exI[of _ st'] conjI allI)
    show "load_lines st (save_chunks d cur (base # bases) @ rest) = load_lines st' rest"
      using step l by simp
    show "map_of (data (self_file st')) k =
         (if \<exists>b\<in>set (base # bases). b \<le> k \<and> k < b + 32 then Some (dict_get d k 255)
          else map_of (data (self_file st)) k)" for k
      using m[rule_format, of k] d1[of k] by auto
    show "first_data_address st' =
        (if first_data_address st = None \<and> base # bases \<noteq> [] then Some (hd (base # bases))
         else first_data_address st)"
      using f f1 by auto
    show "start_address (self_file st') = start_address (self_file st)"
      using s s1 by simp
  qed
qed

lemma fromhex_bytes: "fromhex s = Inr bs \<Longrightarrow> \<forall>b\<in>set bs. 0 \<le> b \<and> b < 256"
proof (induction s arbitrary: bs rule: fromhex.induct)
  case 1
  then show ?case by simp
next
  case (2 c)
  then show ?case by (simp split: if_splits)
next
  case (3 c d r)
  show ?case
  proof (cases "Py_ISSPACE c")
    case True
    with 3 show ?thesis by simp
  next
    case False
    with "3.prems" obtain bs' where
      r: "fromhex r = Inr bs'" and bs: "bs = int (digit_value c * 16 + digit_value d) # bs'"
      and dg: "is_digit16 c" "is_digit16 d"
      by (auto split: if_splits sum.splits)
    from dg have "digit_value c * 16 + digit_value d < 256"
      by (simp add: is_digit16_def)
    with "3.IH"(2)[OF False _ r] dg bs show ?thesis by auto
  qed
qed

lemma parse_line_bytes:
  "parse_line line = Inr (t, a, p) \<Longrightarrow> \<forall>b\<in>set p. 0 \<le> b \<and> b < 256"
  by (auto simp: parse_line_def parse_fields_def Let_def split: sum.splits if_splits prod.splits
      dest!: fromhex_bytes)

lemma bytes_ok_store:
  "bytes_ok d \<Longrightarrow> \<forall>b\<in>set p. 0 \<le> b \<and> b < 256 \<Longrightarrow> bytes_ok (store_bytes d a p)"
  unfolding bytes_ok_def
  by (auto simp: map_of_store_bytes split: if_splits)

lemma load_lines_bytes:
  "load_lines st lines = Inr st' \<Longrightarrow> bytes_ok (data (self_file st)) \<Longrightarrow>
     bytes_ok (data (self_file st'))"
proof (induction lines arbitrary: st)
  case Nil
  then show ?case by simp
next
  case (Cons raw rest)
  show ?case
  proof (cases "py_strip raw = []")
    case True
    with Cons show ?thesis by simp
  next
    case False
    with Cons.prems(1) obtain t a p where pl: "parse_line (py_strip raw) = Inr (t, a, p)"
      by (auto simp: Let_def split: sum.splits)
    have b: "bytes_ok (store_bytes (data (self_file st)) (extended_address st OR a) p)"
      using bytes_ok_store[OF Cons.prems(2) parse_line_bytes[OF pl]] .
    show ?thesis
    proof (cases "t = 0")
      case True
      with Cons.prems(1) False pl have
        "load_lines
           (st\<lparr>self_file := (self_file st)\<lparr>data :=
                    store_bytes (data (self_file st)) (extended_address st OR a) p\<rparr>,
                first_data_address :=
                  (if first_data_address st = None then Some (extended_address st OR a)
                   else first_data_address st)\<rparr>) rest = Inr st'"
        by (simp add: Let_def)
      from Cons.IH[OF this] b show ?thesis by simp
    next
      case nz: False
      show ?thesis
      proof (cases "t = 1")
        case True
        with Cons.prems False pl nz show ?thesis by (simp add: Let_def)
      next
        case no: False
        show ?thesis
        proof (cases "t = 4")
          case True
          with Cons.prems(1) False pl have
            "load_lines (st\<lparr>extended_address := push_bit 16 (from_bytes_big p)\<rparr>) rest
               = Inr st'"
            by (simp add: Let_def)
          from Cons.IH[OF this] Cons.prems(2) show ?thesis by simp
        next
          case nf: False
          show ?thesis
          proof (cases "t = 5")
            case True
            with Cons.prems(1) False pl have
              "load_lines (st\<lparr>self_file :=
                  (self_file st)\<lparr>start_address := Some (from_bytes_big p)\<rparr>\<rparr>) rest
                 = Inr st'"
              by (simp add: Let_def)
            from Cons.IH[OF this] Cons.prems(2) show ?thesis by simp
          next
            case False
            with Cons.prems(1) \<open>py_strip raw \<noteq> []\<close> pl nz no nf
            have "load_lines st rest = Inr st'"
              by (simp add: Let_def)
            from Cons.IH[OF this] Cons.prems(2) show ?thesis by simp
          qed
        qed
      qed
    qed
  qed
qed

lemma load_file_bytes:
  assumes "load_file new_file lines = Inr img"
  shows "bytes_ok (data img)"
proof -
  from assms obtain st where
    st: "load_lines \<lparr>self_file = new_file, extended_address = 0, first_data_address = None\<rparr> lines
          = Inr st"
    and img: "data img = data (self_file st)"
    by (auto simp: load_file_def split: sum.splits if_splits)
  have "bytes_ok (data (self_file
      \<lparr>self_file = new_file, extended_address = 0, first_data_address = None\<rparr>))"
    by (simp add: new_file_def bytes_ok_def)
  from load_lines_bytes[OF st this] img show ?thesis by simp
qed

lemma bytes_ok_get: "bytes_ok d \<Longrightarrow> 0 \<le> dict_get d k 255 \<and> dict_get d k 255 < 256"
  by (auto simp: bytes_ok_def dict_get_def split: option.splits)

lemma sort_bounds:
  fixes ks :: "int list"
  assumes "k \<in> set ks"
  shows "hd (sort ks) \<le> k" and "k \<le> last (sort ks)"
proof -
  have k: "k \<in> set (sort ks)" using assms by simp
  have s: "sorted (sort ks)" by simp
  obtain x xs where c: "sort ks = x # xs" using k by (cases "sort ks") auto
  from s k show "hd (sort ks) \<le> k"
    unfolding c by auto
  have "\<And>ys. sorted ys \<Longrightarrow> k \<in> set ys \<Longrightarrow> k \<le> last ys"
  proof -
    fix ys :: "int list"
    show "sorted ys \<Longrightarrow> k \<in> set ys \<Longrightarrow> k \<le> last ys"
      by (induction ys) (auto split: if_splits)
  qed
  from this[OF s k] show "k \<le> last (sort ks)" .
qed

lemma sort_ends_mem:
  fixes ks :: "int list"
  assumes "ks \<noteq> []"
  shows "hd (sort ks) \<in> set ks" and "last (sort ks) \<in> set ks"
proof -
  have ne: "sort ks \<noteq> []" using assms by (metis length_sort length_0_conv)
  from hd_in_set[OF ne] show "hd (sort ks) \<in> set ks" by simp
  from last_in_set[OF ne] show "last (sort ks) \<in> set ks" by simp
qed

lemma div32_bounds: "32 * ((x::int) div 32) \<le> x" "x < 32 * (x div 32) + 32"
proof -
  have "x = 32 * (x div 32) + x mod 32" by simp
  moreover have "0 \<le> x mod 32" "x mod 32 < 32" by simp_all
  ultimately show "32 * (x div 32) \<le> x" "x < 32 * (x div 32) + 32" by linarith+
qed

lemma bases_set:
  "set (py_range lo (hi + 1) 32) = {b. \<exists>j. b = lo + 32 * int j \<and> int j < (hi - lo + 32) div 32}"
proof -
  have "(hi + 1 - lo + 32 - 1) = hi - lo + 32" by simp
  then show ?thesis
    by (auto simp: py_range_def image_def)
qed

lemma bases_range:
  assumes "0 \<le> lo" and "hi < 2 ^ 32"
  shows "\<forall>b\<in>set (py_range lo (hi + 1) 32). 0 \<le> b \<and> b < 2 ^ 32"
proof
  fix b assume "b \<in> set (py_range lo (hi + 1) 32)"
  then obtain j where b: "b = lo + 32 * int j" and j: "int j < (hi - lo + 32) div 32"
    by (auto simp: bases_set)
  from j have "32 * (int j + 1) \<le> 32 * ((hi - lo + 32) div 32)" by simp
  also have "\<dots> \<le> hi - lo + 32" by (rule div32_bounds)
  finally have "b \<le> hi" using b by simp
  with assms b show "0 \<le> b \<and> b < 2 ^ 32" by simp
qed

lemma bases_cover:
  assumes "lo \<le> k" and "k \<le> hi"
  shows "\<exists>b\<in>set (py_range lo (hi + 1) 32). b \<le> k \<and> k < b + 32"
proof -
  define j where "j = nat ((k - lo) div 32)"
  have nn: "0 \<le> (k - lo) div 32" using assms by simp
  then have ij: "int j = (k - lo) div 32" by (simp add: j_def)
  have "(k - lo) div 32 \<le> (hi - lo) div 32"
    using assms by (intro zdiv_mono1) simp_all
  also have "\<dots> < (hi - lo + 32) div 32" by simp
  finally have "int j < (hi - lo + 32) div 32" by (simp add: ij)
  then have "lo + 32 * int j \<in> set (py_range lo (hi + 1) 32)"
    by (auto simp: bases_set)
  moreover have "lo + 32 * int j \<le> k" "k < lo + 32 * int j + 32"
    using div32_bounds[of "k - lo"] by (simp_all add: ij)
  ultimately show ?thesis by blast
qed

lemma bases_hd:
  assumes "lo \<le> hi"
  shows "py_range lo (hi + 1) 32 \<noteq> []" and "hd (py_range lo (hi + 1) 32) = lo"
proof -
  have "1 \<le> (hi - lo + 32) div 32"
    using assms by (simp add: pos_imp_zdiv_pos_iff)
  then have "0 < nat ((hi + 1 - lo + 32 - 1) div 32)" by simp
  then obtain m where m: "nat ((hi + 1 - lo + 32 - 1) div 32) = Suc m"
    by (cases "nat ((hi + 1 - lo + 32 - 1) div 32)") auto
  show "py_range lo (hi + 1) 32 \<noteq> []"
    unfolding py_range_def m by simp
  show "hd (py_range lo (hi + 1) 32) = lo"
    unfolding py_range_def m by (simp add: upt_conv_Cons del: upt_Suc)
qed

lemma eof_line_parse:
  "py_strip ('':00000001FF'' @ newline) \<noteq> []"
  "parse_line (py_strip ('':00000001FF'' @ newline)) = Inr (1, 0, [])"
  by code_simp+

lemma load_lines_eof_line: "load_lines st ['':00000001FF'' @ newline] = Inr st"
  using eof_line_parse by (simp add: Let_def)

text \<open>
  Claim C1, as the code has it. Let an image come from \<open>load_file\<close>, with at least
  one populated address and every populated address in the 32-bit range. Then
  \<open>save_file\<close> succeeds, \<open>load_file\<close> accepts the lines it wrote, and the reloaded image
  reads like the original at every address (the fill byte standing for an absent cell):
  every cell of the original is there with its value, and a cell that the original lacks
  is either absent or holds the fill byte \<open>0xFF\<close>, because \<open>save_file\<close> writes whole
  32-byte chunks. The set of populated addresses is therefore not preserved. The entry
  point of the reloaded image is the lowest populated address of the original, whether
  the original entry point was explicit or inferred: \<open>save_file\<close> writes no Start Linear
  Address record.
\<close>

theorem save_load_roundtrip:
  assumes loaded: "load_file new_file lines0 = Inr img"
    and nonempty: "data img \<noteq> []"
    and range: "\<forall>k\<in>fst ` set (data img). 0 \<le> k \<and> k < 2 ^ 32"
  shows "\<exists>out img'. save_file img = Inr out \<and> load_file new_file out = Inr img'
      \<and> (\<forall>k. dict_get (data img') k 0xFF = dict_get (data img) k 0xFF)
      \<and> (\<forall>k v. map_of (data img) k = Some v \<longrightarrow> map_of (data img') k = Some v)
      \<and> (\<forall>k. map_of (data img) k = None \<longrightarrow>
            map_of (data img') k = None \<or> map_of (data img') k = Some 0xFF)
      \<and> start_address img' = Some (Min (fst ` set (data img)))"
proof -
  define d where "d = data img"
  define ks where "ks = map fst d"
  define lo where "lo = hd (sort ks)"
  define hi where "hi = last (sort ks)"
  define bases where "bases = py_range lo (hi + 1) 32"
  define out where "out = save_chunks d None bases @ ['':00000001FF'' @ newline]"
  define st0 where
    "st0 = \<lparr>self_file = new_file, extended_address = 0, first_data_address = None\<rparr>"
  have ksne: "ks \<noteq> []" using nonempty by (simp add: ks_def d_def)
  then have sne: "sort ks \<noteq> []" by (metis length_sort length_0_conv)
  have save: "save_file img = Inr out"
    using sne by (simp add: save_file_def Let_def out_def bases_def lo_def hi_def ks_def d_def)
  have lo_mem: "lo \<in> set ks" and hi_mem: "hi \<in> set ks"
    using sort_ends_mem[OF ksne] by (simp_all add: lo_def hi_def)
  have bnd: "lo \<le> k \<and> k \<le> hi" if "k \<in> set ks" for k
    using sort_bounds[OF that] by (simp add: lo_def hi_def)
  have lohi: "lo \<le> hi" using bnd[OF hi_mem] by simp
  have set_ks: "set ks = fst ` set d" by (simp add: ks_def)
  have lo0: "0 \<le> lo" and hi32: "hi < 2 ^ 32"
    using range lo_mem hi_mem by (auto simp: set_ks d_def)
  have bytes: "\<forall>k. 0 \<le> dict_get d k 255 \<and> dict_get d k 255 < 256"
    using bytes_ok_get[OF load_file_bytes[OF loaded]] by (simp add: d_def)
  have cur0: "\<forall>c. None = Some c \<longrightarrow> extended_address st0 = push_bit 16 c" by simp
  from load_save_chunks[OF bytes bases_range[OF lo0 hi32, folded bases_def] cur0,
      of "['':00000001FF'' @ newline]"]
  obtain st' where
    l: "load_lines st0 out = load_lines st' ['':00000001FF'' @ newline]"
    and m: "\<forall>k. map_of (data (self_file st')) k =
              (if \<exists>b\<in>set bases. b \<le> k \<and> k < b + 32 then Some (dict_get d k 255)
               else map_of (data (self_file st0)) k)"
    and f: "first_data_address st' =
            (if first_data_address st0 = None \<and> bases \<noteq> [] then Some (hd bases)
             else first_data_address st0)"
    and s: "start_address (self_file st') = start_address (self_file st0)"
    unfolding out_def by blast
  have l': "load_lines st0 out = Inr st'"
    using l by (simp only: load_lines_eof_line)
  have s': "start_address (self_file st') = None"
    using s by (simp add: st0_def new_file_def)
  have f': "first_data_address st' = Some lo"
    using f bases_hd[OF lohi, folded bases_def] by (simp add: st0_def)
  define img' where "img' = (self_file st')\<lparr>start_address := Some lo\<rparr>"
  have load': "load_file new_file out = Inr img'"
    using l' s' f' by (simp add: load_file_def st0_def[symmetric] img'_def)
  have m': "map_of (data img') k =
      (if \<exists>b\<in>set bases. b \<le> k \<and> k < b + 32 then Some (dict_get d k 255) else None)" for k
    using m[rule_format, of k] by (simp add: img'_def st0_def new_file_def)
  have cover: "\<exists>b\<in>set bases. b \<le> k \<and> k < b + 32" if "map_of d k = Some v" for k v
  proof -
    from that have "k \<in> set ks"
      unfolding set_ks by (metis map_of_SomeD fst_conv image_eqI)
    from bnd[OF this] show ?thesis
      unfolding bases_def by (intro bases_cover) simp_all
  qed
  have a: "dict_get (data img') k 0xFF = dict_get d k 0xFF" for k
  proof (cases "\<exists>b\<in>set bases. b \<le> k \<and> k < b + 32")
    case True
    then show ?thesis by (simp add: dict_get_def m')
  next
    case False
    then have "map_of d k = None"
      using cover[of k] by (cases "map_of d k") auto
    with False show ?thesis by (simp add: dict_get_def m')
  qed
  have b: "map_of (data img') k = Some v" if "map_of d k = Some v" for k v
    using cover[OF that] that by (simp add: m' dict_get_def)
  have c: "map_of (data img') k = None \<or> map_of (data img') k = Some 0xFF"
    if "map_of d k = None" for k
    using that by (simp add: m' dict_get_def)
  have "Min (fst ` set d) = lo"
  proof (rule Min_eqI)
    show "finite (fst ` set d)" by simp
    show "lo \<le> y" if "y \<in> fst ` set d" for y
      using bnd[of y] that by (simp add: set_ks)
    show "lo \<in> fst ` set d" using lo_mem by (simp add: set_ks)
  qed
  then have e: "start_address img' = Some (Min (fst ` set (data img)))"
    by (simp add: img'_def d_def)
  from save load' a b c e show ?thesis
    unfolding d_def by blast
qed

theorem save_load_roundtrip_witness:
  "load_file new_file ['':0100000055AA'' @ newline, '':00000001FF'' @ newline]
      = Inr \<lparr>data = [(0, 0x55)], start_address = Some 0\<rparr>
   \<and> (\<exists>out img'. save_file \<lparr>data = [(0, 0x55)], start_address = Some 0\<rparr> = Inr out
          \<and> load_file new_file out = Inr img'
          \<and> dict_get (data img') 0 0xFF = 0x55
          \<and> dict_get (data img') 1 0xFF = 0xFF
          \<and> map_of (data img') 0 = Some 0x55
          \<and> start_address img' = Some 0)"
proof -
  let ?X = "\<lparr>data = [(0, 0x55)], start_address = Some 0\<rparr>"
  have h1: "load_file new_file ['':0100000055AA'' @ newline, '':00000001FF'' @ newline] = Inr ?X"
    by code_simp
  have h2: "data ?X \<noteq> []" by simp
  have h3: "\<forall>k\<in>fst ` set (data ?X). 0 \<le> k \<and> k < 2 ^ 32" by simp
  from save_load_roundtrip[OF h1 h2 h3] obtain out img' where
    s: "save_file ?X = Inr out" and l: "load_file new_file out = Inr img'"
    and a: "\<forall>k. dict_get (data img') k 0xFF = dict_get (data ?X) k 0xFF"
    and b: "\<forall>k v. map_of (data ?X) k = Some v \<longrightarrow> map_of (data img') k = Some v"
    and e: "start_address img' = Some (Min (fst ` set (data ?X)))"
    by (elim exE conjE)
  have "dict_get (data img') 0 0xFF = 0x55"
    using a[rule_format, of 0] by (simp add: dict_get_def)
  moreover have "dict_get (data img') 1 0xFF = 0xFF"
    using a[rule_format, of 1] by (simp add: dict_get_def)
  moreover have "map_of (data img') 0 = Some 0x55"
    using b[rule_format, of 0 "0x55"] by simp
  moreover have "start_address img' = Some 0"
    using e by simp
  ultimately have "\<exists>out img'. save_file ?X = Inr out
          \<and> load_file new_file out = Inr img'
          \<and> dict_get (data img') 0 0xFF = 0x55
          \<and> dict_get (data img') 1 0xFF = 0xFF
          \<and> map_of (data img') 0 = Some 0x55
          \<and> start_address img' = Some 0"
    using s l by (intro exI[of _ out] exI[of _ img']) simp
  with h1 show ?thesis by (rule conjI)
qed

text \<open>An image with the single cell \<open>0 \<mapsto> 0x55\<close> comes back with address 1 populated.\<close>

theorem roundtrip_populates_padding:
  "load_file new_file ['':0100000055AA'' @ newline, '':00000001FF'' @ newline]
      = Inr \<lparr>data = [(0, 0x55)], start_address = Some 0\<rparr>
   \<and> save_file \<lparr>data = [(0, 0x55)], start_address = Some 0\<rparr>
      = Inr ['':020000040000FA'' @ newline,
             '':2000000055FFFFFFFFFFFFFFFFFFFFFFFFFFFFFFFFFFFFFFFFFFFFFFFFFFFFFFFFFFFFFFAA''
               @ newline,
             '':00000001FF'' @ newline]
   \<and> map_of (data \<lparr>data = [(0, 0x55)], start_address = Some 0\<rparr>) 1 = None
   \<and> (case load_file new_file
          ['':020000040000FA'' @ newline,
           '':2000000055FFFFFFFFFFFFFFFFFFFFFFFFFFFFFFFFFFFFFFFFFFFFFFFFFFFFFFFFFFFFFFAA''
             @ newline,
           '':00000001FF'' @ newline] of
         Inl e \<Rightarrow> None
       | Inr img' \<Rightarrow> map_of (data img') 1) = Some 0xFF"
proof -
  have a: "load_file new_file ['':0100000055AA'' @ newline, '':00000001FF'' @ newline]
      = Inr \<lparr>data = [(0, 0x55)], start_address = Some 0\<rparr>"
    by code_simp
  have b: "save_file \<lparr>data = [(0, 0x55)], start_address = Some 0\<rparr>
      = Inr ['':020000040000FA'' @ newline,
             '':2000000055FFFFFFFFFFFFFFFFFFFFFFFFFFFFFFFFFFFFFFFFFFFFFFFFFFFFFFFFFFFFFFAA''
               @ newline,
             '':00000001FF'' @ newline]"
    by code_simp
  have c: "map_of (data \<lparr>data = [(0, 0x55)], start_address = Some 0\<rparr>) 1 = None"
    by simp
  have d: "(case load_file new_file
          ['':020000040000FA'' @ newline,
           '':2000000055FFFFFFFFFFFFFFFFFFFFFFFFFFFFFFFFFFFFFFFFFFFFFFFFFFFFFFFFFFFFFFAA''
             @ newline,
           '':00000001FF'' @ newline] of
         Inl e \<Rightarrow> None
       | Inr img' \<Rightarrow> map_of (data img') 1) = Some 0xFF"
    by code_simp
  from a b c d show ?thesis by (intro conjI)
qed

text \<open>An explicit entry point \<open>0x1234\<close> comes back as the lowest address \<open>0x10\<close>, and a cell
  at address \<open>2 ^ 32\<close> (reached by a three-byte Extended Linear Address payload) comes back
  at address 0.\<close>

lemma roundtrip_entry_point_example:
  "(case load_file new_file
       ['':01001000559A'' @ newline, '':0400000500001234B1'' @ newline,
        '':00000001FF'' @ newline] of
      Inl e \<Rightarrow> (None, None)
    | Inr f \<Rightarrow>
        (start_address f,
         case save_file f of
           Inl e \<Rightarrow> None
         | Inr out \<Rightarrow> (case load_file new_file out of Inl e \<Rightarrow> None | Inr g \<Rightarrow> start_address g)))
   = (Some 0x1234, Some 0x10)"
  by code_simp

lemma roundtrip_above_32_bits_example:
  "(case load_file new_file ['':03000004010000F8'' @ newline, '':0100000055AA'' @ newline] of
      Inl e \<Rightarrow> ([], None, None)
    | Inr f \<Rightarrow>
        (data f,
         case save_file f of
           Inl e \<Rightarrow> (None, None)
         | Inr out \<Rightarrow>
             (case load_file new_file out of
                Inl e \<Rightarrow> (None, None)
              | Inr g \<Rightarrow> (map_of (data g) 0x100000000, map_of (data g) 0))))
   = ([(0x100000000, 0x55)], None, Some 0x55)"
  by code_simp

end
